theory Spec2Isabelle
  imports Complex_Main "HOL-Library.Word"
begin

unbundle bit_operations_syntax

section \<open>Numbers\<close>

text \<open>
  The program computes with JavaScript numbers (IEEE-754 doubles) and stores vectors in
  \<^verbatim>\<open>Float32Array\<close>s. The model keeps the three special values of IEEE arithmetic
  and takes the finite values as reals; the sign of zero is left out. Where \<open>search\<close>
  computes a score, every operation is rounded as the machine rounds it (section
  Rounding): the products and sums of the dot product to a double, the value stored in
  \<^verbatim>\<open>scores\<close> to a single. The half-precision decoder below is exact, since every
  half-precision value and every intermediate product of its formula is representable
  without rounding; the arithmetic of \<open>embed\<close> is taken over the reals.
\<close>

datatype jsnum = NaN | PInf | NInf | Fin real

section \<open>HalfFloatDecoder (init, the body of the decoding loop)\<close>

text \<open>
  \<^verbatim>\<open>const s = (h & 0x8000) >> 15, e = (h & 0x7C00) >> 10, m = h & 0x03FF;
  embeddings[i] = e === 0 ? (s ? -1 : 1) * 2 ** -14 * (m / 1024)
    : e === 31 ? (m ? NaN : (s ? -Infinity : Infinity))
    : (s ? -1 : 1) * 2 ** (e - 15) * (1 + m / 1024);\<close>
  \<open>h\<close> is what \<^verbatim>\<open>readUInt16LE\<close> returned, an unsigned 16-bit value.
\<close>

definition decode_half :: "16 word \<Rightarrow> jsnum" where
  "decode_half h =
     (let s = unat (drop_bit 15 (h AND 0x8000));
          e = unat (drop_bit 10 (h AND 0x7C00));
          m = unat (h AND 0x03FF)
      in if e = 0 then Fin ((if s \<noteq> 0 then - 1 else 1) * 2 powi (- 14) * (real m / 1024))
         else if e = 31 then (if m \<noteq> 0 then NaN else (if s \<noteq> 0 then NInf else PInf))
         else Fin ((if s \<noteq> 0 then - 1 else 1) * 2 powi (int e - 15) * (1 + real m / 1024)))"

section \<open>Arithmetic on numbers\<close>

text \<open>
  IEEE rules for the special values: NaN is absorbing, \<open>\<infinity> - \<infinity>\<close>, \<open>0 * \<infinity>\<close>,
  \<open>0 / 0\<close> and \<open>\<infinity> / \<infinity>\<close> are NaN, a non-zero number divided by zero is an infinity.
  Zero is taken as \<open>+0\<close> where its sign would matter.
\<close>

fun fadd :: "jsnum \<Rightarrow> jsnum \<Rightarrow> jsnum" where
  "fadd (Fin x) (Fin y) = Fin (x + y)"
| "fadd NaN _ = NaN"
| "fadd _ NaN = NaN"
| "fadd PInf NInf = NaN"
| "fadd NInf PInf = NaN"
| "fadd PInf _ = PInf"
| "fadd _ PInf = PInf"
| "fadd NInf _ = NInf"
| "fadd _ NInf = NInf"

fun fneg :: "jsnum \<Rightarrow> jsnum" where
  "fneg (Fin x) = Fin (- x)"
| "fneg PInf = NInf"
| "fneg NInf = PInf"
| "fneg NaN = NaN"

definition fsub :: "jsnum \<Rightarrow> jsnum \<Rightarrow> jsnum" where
  "fsub a b = fadd a (fneg b)"

fun fmul :: "jsnum \<Rightarrow> jsnum \<Rightarrow> jsnum" where
  "fmul (Fin x) (Fin y) = Fin (x * y)"
| "fmul NaN _ = NaN"
| "fmul _ NaN = NaN"
| "fmul PInf (Fin y) = (if y = 0 then NaN else if 0 < y then PInf else NInf)"
| "fmul NInf (Fin y) = (if y = 0 then NaN else if 0 < y then NInf else PInf)"
| "fmul (Fin x) PInf = (if x = 0 then NaN else if 0 < x then PInf else NInf)"
| "fmul (Fin x) NInf = (if x = 0 then NaN else if 0 < x then NInf else PInf)"
| "fmul PInf PInf = PInf"
| "fmul NInf NInf = PInf"
| "fmul PInf NInf = NInf"
| "fmul NInf PInf = NInf"

fun fdiv :: "jsnum \<Rightarrow> jsnum \<Rightarrow> jsnum" where
  "fdiv (Fin x) (Fin y) =
     (if y = 0 then (if x = 0 then NaN else if 0 < x then PInf else NInf) else Fin (x / y))"
| "fdiv NaN _ = NaN"
| "fdiv _ NaN = NaN"
| "fdiv (Fin x) _ = Fin 0"
| "fdiv PInf (Fin y) = (if y < 0 then NInf else PInf)"
| "fdiv NInf (Fin y) = (if y < 0 then PInf else NInf)"
| "fdiv _ _ = NaN"

fun fsqrt :: "jsnum \<Rightarrow> jsnum" where
  "fsqrt (Fin x) = (if x < 0 then NaN else Fin (sqrt x))"
| "fsqrt PInf = PInf"
| "fsqrt _ = NaN"

section \<open>Rounding\<close>

text \<open>
  Round to nearest, ties to even, of IEEE-754 for a binary format with \<open>p\<close> bits of
  precision and exponents from \<open>emin\<close> to \<open>emax\<close> (a double: 53, -1022, 1023; a single:
  24, -126, 127). The finite numbers of the format are the multiples \<open>m * 2\<^sup>e\<^sup>-\<^sup>p\<^sup>+\<^sup>1\<close>
  with \<open>\<bar>m\<bar> < 2\<^sup>p\<close> and \<open>emin \<le> e \<le> emax\<close>; a real \<open>x\<close> is rounded to the nearest multiple of
  the unit of its own binade (of the lowest binade when it is subnormal), to the one
  with the even \<open>m\<close> when two are equally near, and to an infinity when that multiple
  is beyond the largest finite number.
\<close>

text \<open>The nearest integer, the even one of two.\<close>

definition round_even :: "real \<Rightarrow> int" where
  "round_even x =
     (let f = \<lfloor>x\<rfloor>; d = x - of_int f
      in if d < 1 / 2 then f else if 1 / 2 < d then f + 1 else if even f then f else f + 1)"

text \<open>
  The binary exponent of \<open>a \<ge> 0\<close>, searched upwards from \<open>e\<close> in at most \<open>n\<close> steps: the
  \<open>e'\<close> with \<open>2\<^sup>e\<^sup>' \<le> a < 2\<^sup>e\<^sup>'\<^sup>+\<^sup>1\<close>, but not less than \<open>e\<close> and not more than \<open>e + n\<close>.
\<close>

fun exponent_from :: "real \<Rightarrow> int \<Rightarrow> nat \<Rightarrow> int" where
  "exponent_from a e 0 = e"
| "exponent_from a e (Suc n) = (if 2 powi (e + 1) \<le> a then exponent_from a (e + 1) n else e)"

definition fl_round :: "nat \<Rightarrow> int \<Rightarrow> int \<Rightarrow> real \<Rightarrow> jsnum" where
  "fl_round p emin emax x =
     (let e = exponent_from \<bar>x\<bar> emin (nat (emax + 1 - emin));
          u = 2 powi (e - int p + 1);
          r = of_int (round_even (x / u)) * u
      in if 2 powi (emax + 1) \<le> \<bar>r\<bar> then (if 0 < x then PInf else NInf) else Fin r)"

definition dbl :: "real \<Rightarrow> jsnum" where
  "dbl = fl_round 53 (- 1022) 1023"

definition f32 :: "real \<Rightarrow> jsnum" where
  "f32 = fl_round 24 (- 126) 127"

text \<open>A number after rounding with \<open>r\<close>: the special values stay.\<close>

fun rounded :: "(real \<Rightarrow> jsnum) \<Rightarrow> jsnum \<Rightarrow> jsnum" where
  "rounded r (Fin x) = r x"
| "rounded r NaN = NaN"
| "rounded r PInf = PInf"
| "rounded r NInf = NInf"

text \<open>\<open>a + b\<close> and \<open>a * b\<close> of two doubles.\<close>

definition dadd :: "jsnum \<Rightarrow> jsnum \<Rightarrow> jsnum" where
  "dadd a b = rounded dbl (fadd a b)"

definition dmul :: "jsnum \<Rightarrow> jsnum \<Rightarrow> jsnum" where
  "dmul a b = rounded dbl (fmul a b)"

text \<open>\<open>v > 0\<close> in JavaScript: false for NaN.\<close>

fun positive :: "jsnum \<Rightarrow> bool" where
  "positive (Fin x) = (0 < x)"
| "positive PInf = True"
| "positive _ = False"

text \<open>\<open>a >= b\<close> in JavaScript: false when either side is NaN.\<close>

fun fge :: "jsnum \<Rightarrow> jsnum \<Rightarrow> bool" where
  "fge NaN _ = False"
| "fge _ NaN = False"
| "fge PInf _ = True"
| "fge _ NInf = True"
| "fge (Fin x) (Fin y) = (y \<le> x)"
| "fge _ _ = False"

text \<open>Reading an array beyond its length gives \<^verbatim>\<open>undefined\<close>, which is NaN in arithmetic.\<close>

definition num_at :: "jsnum list \<Rightarrow> nat \<Rightarrow> jsnum" where
  "num_at xs k = (if k < length xs then xs ! k else NaN)"

section \<open>Typed arrays on a heap\<close>

text \<open>
  The \<^verbatim>\<open>Float32Array\<close>s of the program (\<^verbatim>\<open>embeddings\<close>, and the \<^verbatim>\<open>scores\<close> and
  \<^verbatim>\<open>f\<close> of each request) are mutable objects. The heap is the list of all arrays
  allocated so far, an array's address is its position in that list, and the only
  addresses the program ever holds are those that \<open>alloc\<close> returned. A write beyond an
  array's length is ignored, as typed arrays do.
\<close>

type_synonym addr = nat
type_synonym heap = "jsnum list list"

definition alloc :: "heap \<Rightarrow> nat \<Rightarrow> addr \<times> heap" where
  "alloc h n = (length h, h @ [replicate n (Fin 0)])"

definition arr_get :: "heap \<Rightarrow> addr \<Rightarrow> nat \<Rightarrow> jsnum" where
  "arr_get h a k = num_at (h ! a) k"

definition arr_set :: "heap \<Rightarrow> addr \<Rightarrow> nat \<Rightarrow> jsnum \<Rightarrow> heap" where
  "arr_set h a k v = h[a := (h ! a)[k := v]]"

section \<open>EmbeddingStore (init)\<close>

text \<open>
  What the program can throw: the RangeError of a buffer read, the TypeError of a property
  read on \<^verbatim>\<open>undefined\<close>, and whatever the image library and the inference session
  throw (\<open>DecodeFailure\<close>, \<open>InferenceFailure\<close>). The program defines no error of its own.
\<close>

datatype error = RangeError | TypeError | DecodeFailure | InferenceFailure

text \<open>
  The module's globals: \<^verbatim>\<open>meta\<close> (the parsed metadata, one row per product) and
  \<^verbatim>\<open>embeddings\<close> (a reference to a \<^verbatim>\<open>Float32Array\<close>), with the heap they live on.
  The inference session is outside the program and is a parameter of \<open>embed\<close>.
\<close>

record 'a proc =
  meta :: "'a list list"
  embeddings :: addr
  heap :: heap

text \<open>\<^verbatim>\<open>Buffer.readUInt16LE(offset)\<close>: a RangeError unless two bytes are there.\<close>

definition readUInt16LE :: "8 word list \<Rightarrow> nat \<Rightarrow> error + 16 word" where
  "readUInt16LE bin off =
     (if off + 2 \<le> length bin
      then Inr (ucast (bin ! off) OR push_bit 8 (ucast (bin ! (off + 1))))
      else Inl RangeError)"

text \<open>
  \<^verbatim>\<open>for (let i = 0; i < meta.length * 512; i++) {
    const h = bin.readUInt16LE(i * 2); ... embeddings[i] = ...; }\<close>
\<close>

function decode_loop :: "8 word list \<Rightarrow> nat \<Rightarrow> nat \<Rightarrow> addr \<Rightarrow> heap \<Rightarrow> error + heap" where
  "decode_loop bin n i a h =
     (if i < n
      then (case readUInt16LE bin (i * 2) of
              Inl e \<Rightarrow> Inl e
            | Inr hw \<Rightarrow> decode_loop bin n (i + 1) a (arr_set h a i (decode_half hw)))
      else Inr h)"
  by pat_completeness auto
termination
  by (relation "measure (\<lambda>(bin, n, i, a, h). n - i)") auto

declare decode_loop.simps [simp del]

text \<open>
  \<open>init\<close> after the files are there and parsed: \<open>metadata\<close> is the content of
  \<^verbatim>\<open>vs-meta.json\<close>, \<open>bin\<close> the bytes of \<^verbatim>\<open>vs-embeddings.bin\<close>.
\<close>

definition init :: "'a list list \<Rightarrow> 8 word list \<Rightarrow> error + 'a proc" where
  "init metadata bin =
     (let (a, h) = alloc [] (length metadata * 512)
      in case decode_loop bin (length metadata * 512) 0 a h of
           Inl e \<Rightarrow> Inl e
         | Inr h' \<Rightarrow> Inr \<lparr>meta = metadata, embeddings = a, heap = h'\<rparr>)"

text \<open>\<^verbatim>\<open>init().then(() => server.listen(PORT))\<close>: the server listens only when \<open>init\<close> returned.\<close>

datatype 'a server = Listening "'a proc" | Crashed error

definition startup :: "'a list list \<Rightarrow> 8 word list \<Rightarrow> 'a server" where
  "startup metadata bin =
     (case init metadata bin of Inl e \<Rightarrow> Crashed e | Inr st \<Rightarrow> Listening st)"

fun is_listening :: "'a server \<Rightarrow> bool" where
  "is_listening (Listening st) = True"
| "is_listening (Crashed e) = False"

definition catalogSize :: "'a proc \<Rightarrow> nat" where
  "catalogSize st = length (meta st)"

section \<open>ImagePreprocessor and InferenceAdapter (embed)\<close>

definition MEAN :: "real list" where
  "MEAN = [0.48145466, 0.4578275, 0.40821073]"

definition STD :: "real list" where
  "STD = [0.26862954, 0.26130258, 0.27577711]"

text \<open>\<^verbatim>\<open>data[k]\<close> of the raw pixel buffer: a byte, or \<^verbatim>\<open>undefined\<close> beyond its end.\<close>

definition byte_at :: "8 word list \<Rightarrow> nat \<Rightarrow> jsnum" where
  "byte_at data k = (if k < length data then Fin (real (unat (data ! k))) else NaN)"

text \<open>\<^verbatim>\<open>(data[i * 3 + c] / 255 - MEAN[c]) / STD[c]\<close>\<close>

definition px :: "8 word list \<Rightarrow> nat \<Rightarrow> nat \<Rightarrow> jsnum" where
  "px data i c =
     fdiv (fsub (fdiv (byte_at data (i * 3 + c)) (Fin 255)) (Fin (MEAN ! c))) (Fin (STD ! c))"

text \<open>
  \<^verbatim>\<open>for (let i = 0; i < 224 * 224; i++)
    for (let c = 0; c < 3; c++) f[c * 224 * 224 + i] = ...;\<close>
\<close>

function channel_loop :: "8 word list \<Rightarrow> addr \<Rightarrow> nat \<Rightarrow> nat \<Rightarrow> heap \<Rightarrow> heap" where
  "channel_loop data f i c h =
     (if c < 3
      then channel_loop data f i (c + 1) (arr_set h f (c * 224 * 224 + i) (px data i c))
      else h)"
  by pat_completeness auto
termination
  by (relation "measure (\<lambda>(data, f, i, c, h). 3 - c)") auto

declare channel_loop.simps [simp del]

function pixel_loop :: "8 word list \<Rightarrow> addr \<Rightarrow> nat \<Rightarrow> heap \<Rightarrow> heap" where
  "pixel_loop data f i h =
     (if i < 224 * 224
      then pixel_loop data f (i + 1) (channel_loop data f i 0 h)
      else h)"
  by pat_completeness auto
termination
  by (relation "measure (\<lambda>(data, f, i, h). 224 * 224 - i)") auto

declare pixel_loop.simps [simp del]

text \<open>\<open>data\<close> is the raw buffer that the image library returned for the request.\<close>

definition preprocess :: "8 word list \<Rightarrow> heap \<Rightarrow> addr \<times> heap" where
  "preprocess data h = (let (f, h1) = alloc h (3 * 224 * 224) in (f, pixel_loop data f 0 h1))"

text \<open>
  \<^verbatim>\<open>Array.from(Object.values(res)[0].data)\<close>: the result set of the model is the list
  of its named outputs in the order \<^verbatim>\<open>Object.values\<close> gives them. With no output at
  all, \<^verbatim>\<open>undefined.data\<close> is a TypeError.
\<close>

definition first_output :: "(string \<times> jsnum list) list \<Rightarrow> error + jsnum list" where
  "first_output res = (case res of [] \<Rightarrow> Inl TypeError | (name, d) # rest \<Rightarrow> Inr d)"

text \<open>
  \<^verbatim>\<open>const norm = Math.sqrt(emb.reduce((s, v) => s + v * v, 0));
  return emb.map(v => v / norm);\<close>
\<close>

definition norm' :: "jsnum list \<Rightarrow> jsnum" where
  "norm' emb = fsqrt (foldl (\<lambda>s v. fadd s (fmul v v)) (Fin 0) emb)"

definition l2_normalize :: "jsnum list \<Rightarrow> jsnum list" where
  "l2_normalize emb = map (\<lambda>v. fdiv v (norm' emb)) emb"

text \<open>
  \<open>embed\<close>. The image library (\<open>sharp\<close>: decode, cover-resize to 224 x 224, drop alpha,
  raw bytes) and the inference session (\<open>run\<close>) are outside the program: parameters, each
  returning its result or its failure.
\<close>

definition embed ::
  "(8 word list \<Rightarrow> error + 8 word list) \<Rightarrow> (jsnum list \<Rightarrow> error + (string \<times> jsnum list) list) \<Rightarrow>
   8 word list \<Rightarrow> 'a proc \<Rightarrow> (error + jsnum list) \<times> 'a proc" where
  "embed sharp run buf st =
     (case sharp buf of
        Inl e \<Rightarrow> (Inl e, st)
      | Inr data \<Rightarrow>
          (let (f, h1) = preprocess data (heap st);
               st1 = st\<lparr>heap := h1\<rparr>
           in case run (h1 ! f) of
                Inl e \<Rightarrow> (Inl e, st1)
              | Inr res \<Rightarrow>
                  (case first_output res of
                     Inl e \<Rightarrow> (Inl e, st1)
                   | Inr emb \<Rightarrow> (Inr (l2_normalize emb), st1))))"

section \<open>SimilarityIndex (search)\<close>

text \<open>\<^verbatim>\<open>for (let j = 0; j < 512; j++) dot += query[j] * embeddings[off + j];\<close>\<close>

function dot_loop :: "jsnum list \<Rightarrow> heap \<Rightarrow> addr \<Rightarrow> nat \<Rightarrow> nat \<Rightarrow> jsnum \<Rightarrow> jsnum" where
  "dot_loop query h e off j dot =
     (if j < 512
      then dot_loop query h e off (j + 1) (dadd dot (dmul (num_at query j) (arr_get h e (off + j))))
      else dot)"
  by pat_completeness auto
termination
  by (relation "measure (\<lambda>(query, h, e, off, j, dot). 512 - j)") auto

declare dot_loop.simps [simp del]

text \<open>
  \<^verbatim>\<open>for (let i = 0; i < meta.length; i++) {
    let dot = 0, off = i * 512; ...; scores[i] = dot; }\<close>
  \<^verbatim>\<open>scores\<close> is a \<^verbatim>\<open>Float32Array\<close>: the store rounds \<open>dot\<close> to a single.
\<close>

function score_loop :: "jsnum list \<Rightarrow> nat \<Rightarrow> addr \<Rightarrow> addr \<Rightarrow> nat \<Rightarrow> heap \<Rightarrow> heap" where
  "score_loop query n e sc i h =
     (if i < n
      then score_loop query n e sc (i + 1)
             (arr_set h sc i (rounded f32 (dot_loop query h e (i * 512) 0 (Fin 0))))
      else h)"
  by pat_completeness auto
termination
  by (relation "measure (\<lambda>(query, n, e, sc, i, h). n - i)") auto

declare score_loop.simps [simp del]

text \<open>Lines 62 to 67: allocate \<^verbatim>\<open>scores\<close> and fill it.\<close>

definition scan :: "jsnum list \<Rightarrow> 'a proc \<Rightarrow> addr \<times> heap" where
  "scan query st =
     (let (sc, h0) = alloc (heap st) (length (meta st))
      in (sc, score_loop query (length (meta st)) (embeddings st) sc 0 h0))"

text \<open>
  \<^verbatim>\<open>Array.prototype.sort(comparefn)\<close>, as the engine of Node (V8) sorts an array of fewer
  than 64 elements: it takes the comparator's result as a number, NaN counting as 0; it
  finds the run at the start of the array (ascending, or strictly descending and then
  reversed) and inserts each further element into the sorted part at the position a binary
  search gives. For 64 and more elements the engine sorts pieces this way and merges
  them; for a consistent comparator every stable sort gives the same result, so the
  model is that of the engine for every length when the comparator is consistent, and for
  fewer than 64 elements whatever the comparator.
\<close>

text \<open>\<open>order < 0\<close> for a comparator result: false for NaN.\<close>

fun negative :: "jsnum \<Rightarrow> bool" where
  "negative (Fin x) = (x < 0)"
| "negative NInf = True"
| "negative _ = False"

text \<open>
  The run detection, after the first comparison: how many more elements continue the run
  (\<open>desc\<close>: the run is strictly descending).
\<close>

fun run_more :: "(nat \<Rightarrow> nat \<Rightarrow> jsnum) \<Rightarrow> bool \<Rightarrow> nat \<Rightarrow> nat list \<Rightarrow> nat" where
  "run_more cmp desc prev [] = 0"
| "run_more cmp desc prev (cur # rest) =
     (if desc
      then (if negative (cmp cur prev) then Suc (run_more cmp desc cur rest) else 0)
      else (if negative (cmp cur prev) then 0 else Suc (run_more cmp desc cur rest)))"

text \<open>The array with its first run made ascending, and the length of that run.\<close>

definition count_and_make_run :: "(nat \<Rightarrow> nat \<Rightarrow> jsnum) \<Rightarrow> nat list \<Rightarrow> nat list \<times> nat" where
  "count_and_make_run cmp xs =
     (case xs of
        a # b # rest \<Rightarrow>
          (let desc = negative (cmp b a);
               n = 2 + run_more cmp desc b rest
           in (if desc then rev (take n xs) @ drop n xs else xs, n))
      | _ \<Rightarrow> (xs, length xs))"

text \<open>
  \<^verbatim>\<open>while (left < right) { mid = left + ((right - left) >> 1);
    if (compare(pivot, a[mid]) < 0) right = mid; else left = mid + 1; }\<close>
\<close>

function binary_search ::
  "(nat \<Rightarrow> nat \<Rightarrow> jsnum) \<Rightarrow> nat \<Rightarrow> nat list \<Rightarrow> nat \<Rightarrow> nat \<Rightarrow> nat" where
  "binary_search cmp pivot xs left right =
     (if left < right
      then (let mid = left + (right - left) div 2
            in if negative (cmp pivot (xs ! mid))
               then binary_search cmp pivot xs left mid
               else binary_search cmp pivot xs (mid + 1) right)
      else left)"
  by pat_completeness auto
termination
  by (relation "measure (\<lambda>(cmp, pivot, xs, left, right). right - left)") auto

declare binary_search.simps [simp del]

definition binary_insert :: "(nat \<Rightarrow> nat \<Rightarrow> jsnum) \<Rightarrow> nat list \<Rightarrow> nat \<Rightarrow> nat list" where
  "binary_insert cmp xs pivot =
     (let left = binary_search cmp pivot xs 0 (length xs)
      in take left xs @ pivot # drop left xs)"

definition array_sort :: "(nat \<Rightarrow> nat \<Rightarrow> jsnum) \<Rightarrow> nat list \<Rightarrow> nat list" where
  "array_sort cmp xs =
     (if length xs < 2 then xs
      else (let (ys, n) = count_and_make_run cmp xs
            in foldl (binary_insert cmp) (take n ys) (drop n ys)))"

text \<open>
  \<^verbatim>\<open>[...scores.keys()].sort((a, b) => scores[b] - scores[a])\<close>
  The difference of two scores is taken over the reals: the sort looks only at its sign,
  and rounding the difference of two singles to a double changes neither its sign nor
  whether it is zero.
\<close>

definition ranking :: "heap \<Rightarrow> addr \<Rightarrow> nat list" where
  "ranking h sc =
     array_sort (\<lambda>a b. fsub (arr_get h sc b) (arr_get h sc a)) [0..<length (h ! sc)]"

text \<open>\<^verbatim>\<open>.slice(0, topK)\<close>: a negative end counts from the end of the array.\<close>

definition slice0 :: "'b list \<Rightarrow> int \<Rightarrow> 'b list" where
  "slice0 xs k = (if k < 0 then take (nat (int (length xs) + k)) xs else take (nat k) xs)"

text \<open>
  \<^verbatim>\<open>Number.prototype.toFixed(1)\<close>: a non-finite number gives its name; otherwise the sign,
  and for the absolute value \<open>x\<close> the integer \<open>n\<close> with \<open>n / 10\<close> nearest to \<open>x\<close> (the larger one
  of two), written in decimal with a point before its last digit. From \<open>10\<^sup>2\<^sup>1\<close> on the
  result is the general number-to-string conversion of the double, which depends on its
  binary representation and stays symbolic here (\<open>ToString\<close>).
\<close>

datatype shown = Shown string | ToString real

definition digit :: "nat \<Rightarrow> char" where
  "digit d = ''0123456789'' ! d"

fun digits :: "nat \<Rightarrow> string" where
  "digits n = (if n < 10 then [digit n] else digits (n div 10) @ [digit (n mod 10)])"

declare digits.simps [simp del]

definition fixed1 :: "nat \<Rightarrow> string" where
  "fixed1 n =
     (let m = digits n;
          m' = (if length m \<le> 1 then replicate (2 - length m) (CHR ''0'') @ m else m)
      in take (length m' - 1) m' @ ''.'' @ drop (length m' - 1) m')"

fun toFixed1 :: "jsnum \<Rightarrow> shown" where
  "toFixed1 NaN = Shown ''NaN''"
| "toFixed1 PInf = Shown ''Infinity''"
| "toFixed1 NInf = Shown ''-Infinity''"
| "toFixed1 (Fin x) =
     (if 10 ^ 21 \<le> \<bar>x\<bar> then ToString x
      else Shown ((if x < 0 then ''-'' else []) @ fixed1 (nat \<lfloor>\<bar>x\<bar> * 10 + 1 / 2\<rfloor>)))"

text \<open>An element of a metadata row, \<^verbatim>\<open>undefined\<close> (\<open>None\<close>) when the row is too short.\<close>

definition field :: "'a list \<Rightarrow> nat \<Rightarrow> 'a option" where
  "field row k = (if k < length row then Some (row ! k) else None)"

record 'a result =
  id' :: "'a option"
  handle :: "'a option"
  title :: "'a option"
  img :: "'a option"
  score :: shown

text \<open>
  \<^verbatim>\<open>i => ({ id: meta[i][0], handle: meta[i][1], title: meta[i][2], img: meta[i][3],
    score: (scores[i] * 100).toFixed(1) })\<close>
  The product \<^verbatim>\<open>scores[i] * 100\<close> needs no rounding: a single has 24 bits of
  precision, so its product with 100 has at most 31 and is a double.
\<close>

definition hit :: "'a list list \<Rightarrow> heap \<Rightarrow> addr \<Rightarrow> nat \<Rightarrow> 'a result" where
  "hit m h sc i =
     \<lparr>id' = field (m ! i) 0, handle = field (m ! i) 1, title = field (m ! i) 2,
      img = field (m ! i) 3, score = toFixed1 (fmul (arr_get h sc i) (Fin 100))\<rparr>"

definition search :: "jsnum list \<Rightarrow> int \<Rightarrow> 'a proc \<Rightarrow> 'a result list \<times> 'a proc" where
  "search query topK st =
     (let (sc, h) = scan query st
      in (map (hit (meta st) h sc) (slice0 (ranking h sc) topK), st\<lparr>heap := h\<rparr>))"

section \<open>The request handler and sequences of calls\<close>

text \<open>\<^verbatim>\<open>const results = search(await embed(Buffer.concat(chunks)));\<close> with \<^verbatim>\<open>topK = 20\<close>.\<close>

definition handle_search ::
  "(8 word list \<Rightarrow> error + 8 word list) \<Rightarrow> (jsnum list \<Rightarrow> error + (string \<times> jsnum list) list) \<Rightarrow>
   8 word list \<Rightarrow> 'a proc \<Rightarrow> (error + 'a result list) \<times> 'a proc" where
  "handle_search sharp run buf st =
     (case embed sharp run buf st of
        (Inl e, st1) \<Rightarrow> (Inl e, st1)
      | (Inr q, st1) \<Rightarrow> (let (r, st2) = search q 20 st1 in (Inr r, st2)))"

datatype call = SearchCall "jsnum list" int | EmbedCall "8 word list" | Request "8 word list"

fun do_call ::
  "(8 word list \<Rightarrow> error + 8 word list) \<Rightarrow> (jsnum list \<Rightarrow> error + (string \<times> jsnum list) list) \<Rightarrow>
   'a proc \<Rightarrow> call \<Rightarrow> 'a proc" where
  "do_call sharp run st (SearchCall q k) = snd (search q k st)"
| "do_call sharp run st (EmbedCall buf) = snd (embed sharp run buf st)"
| "do_call sharp run st (Request buf) = snd (handle_search sharp run buf st)"

definition do_calls ::
  "(8 word list \<Rightarrow> error + 8 word list) \<Rightarrow> (jsnum list \<Rightarrow> error + (string \<times> jsnum list) list) \<Rightarrow>
   'a proc \<Rightarrow> call list \<Rightarrow> 'a proc" where
  "do_calls sharp run st cs = foldl (do_call sharp run) st cs"

section \<open>Reading a search\<close>

text \<open>
  What a call of \<open>search\<close> computes on its way: the \<^verbatim>\<open>scores\<close> array after the scan, and
  the catalog indices in the order of the returned results.
\<close>

definition scores :: "jsnum list \<Rightarrow> 'a proc \<Rightarrow> jsnum list" where
  "scores query st = (case scan query st of (sc, h) \<Rightarrow> h ! sc)"

definition ranked :: "jsnum list \<Rightarrow> int \<Rightarrow> 'a proc \<Rightarrow> nat list" where
  "ranked query topK st = (case scan query st of (sc, h) \<Rightarrow> slice0 (ranking h sc) topK)"

text \<open>
  \<open>may_precede s a b\<close>: in a stable descending order of the scores \<open>s\<close>, index \<open>a\<close> may stand
  before index \<open>b\<close>.
\<close>

definition may_precede :: "(nat \<Rightarrow> jsnum) \<Rightarrow> nat \<Rightarrow> nat \<Rightarrow> bool" where
  "may_precede s a b = (\<not> positive (fsub (s b) (s a)) \<and> (s a = s b \<longrightarrow> a < b))"

text \<open>
  The number that a score text denotes (what \<^verbatim>\<open>Number(text)\<close> gives for the texts
  \<open>toFixed1\<close> prints): the three names, or a sign and decimal digits with one digit after
  the point.
\<close>

definition is_digit :: "char \<Rightarrow> bool" where
  "is_digit c = (48 \<le> (of_char c :: nat) \<and> (of_char c :: nat) \<le> 57)"

definition digit_value :: "char \<Rightarrow> nat" where
  "digit_value c = of_char c - 48"

definition number_of_digits :: "string \<Rightarrow> nat" where
  "number_of_digits ds = foldl (\<lambda>a c. 10 * a + digit_value c) 0 ds"

fun number_of :: "shown \<Rightarrow> jsnum" where
  "number_of (ToString x) = Fin x"
| "number_of (Shown s) =
     (if s = ''NaN'' then NaN
      else if s = ''Infinity'' then PInf
      else if s = ''-Infinity'' then NInf
      else Fin ((if take 1 s = ''-'' then - 1 else 1) *
                real (number_of_digits (filter is_digit s)) / 10))"

text \<open>Rounding to one decimal, halves away from zero.\<close>

definition round1 :: "real \<Rightarrow> real" where
  "round1 x = (if x < 0 then - 1 else 1) * real_of_int \<lfloor>\<bar>x\<bar> * 10 + 1 / 2\<rfloor> / 10"

text \<open>The result record of catalog index \<open>i\<close>, given the scores \<open>s\<close>.\<close>

definition result_of :: "'a proc \<Rightarrow> jsnum list \<Rightarrow> nat \<Rightarrow> 'a result" where
  "result_of st s i =
     \<lparr>id' = field (meta st ! i) 0, handle = field (meta st ! i) 1, title = field (meta st ! i) 2,
      img = field (meta st ! i) 3, score = toFixed1 (fmul (num_at s i) (Fin 100))\<rparr>"

text \<open>The tensor that \<open>embed\<close> hands to the model, for the raw pixel buffer \<open>data\<close>.\<close>

definition tensor :: "8 word list \<Rightarrow> heap \<Rightarrow> jsnum list" where
  "tensor data h = (case preprocess data h of (f, h1) \<Rightarrow> h1 ! f)"

text \<open>
  \<open>frame st st'\<close>: from \<open>st\<close> to \<open>st'\<close> the globals are the same and every array that
  existed in \<open>st\<close> has the same content.
\<close>

definition frame :: "'a proc \<Rightarrow> 'a proc \<Rightarrow> bool" where
  "frame st st' =
     (meta st' = meta st \<and> embeddings st' = embeddings st \<and>
      take (length (heap st)) (heap st') = heap st)"

text \<open>The cosine similarity of two vectors of 512 reals.\<close>

definition cosine :: "(nat \<Rightarrow> real) \<Rightarrow> (nat \<Rightarrow> real) \<Rightarrow> real" where
  "cosine x y =
     (\<Sum>j = 0..<512. x j * y j) /
     (sqrt (\<Sum>j = 0..<512. x j * x j) * sqrt (\<Sum>j = 0..<512. y j * y j))"

section \<open>Example states\<close>

text \<open>A catalog of one product whose stored vector is zero, for the witnesses below.\<close>

definition one_product :: "string proc" where
  "one_product =
     \<lparr>meta = [[''1'', ''desk'', ''Desk'', ''desk.jpg'']], embeddings = 0,
      heap = [replicate 512 (Fin 0)]\<rparr>"

text \<open>The unit vector along the first axis.\<close>

definition e1 :: "nat \<Rightarrow> real" where
  "e1 k = (if k = 0 then 1 else 0)"

definition unit_query :: "jsnum list" where
  "unit_query = Fin 1 # replicate 511 (Fin 0)"

text \<open>
  Two products; the stored vector of the first starts with a NaN (the half-precision word
  \<open>0x7E00\<close> decodes to it), the second is the unit vector along the first axis.
\<close>

definition nan_catalog :: "string proc" where
  "nan_catalog =
     \<lparr>meta = [[''1'', ''desk'', ''Desk'', ''desk.jpg''], [''2'', ''chair'', ''Chair'', ''chair.jpg'']],
      embeddings = 0,
      heap = [(NaN # replicate 511 (Fin 0)) @ (Fin 1 # replicate 511 (Fin 0))]\<rparr>"

text \<open>Two products with the same stored vector.\<close>

definition twin_catalog :: "string proc" where
  "twin_catalog =
     \<lparr>meta = [[''1'', ''desk'', ''Desk'', ''desk.jpg''], [''2'', ''chair'', ''Chair'', ''chair.jpg'']],
      embeddings = 0,
      heap = [(Fin 1 # replicate 511 (Fin 0)) @ (Fin 1 # replicate 511 (Fin 0))]\<rparr>"

text \<open>
  Seven products whose stored vectors lie along the first axis, with the first components
  1, 2, NaN, 1, NaN, 2, 2.
\<close>

definition axis_row :: "jsnum \<Rightarrow> jsnum list" where
  "axis_row v = v # replicate 511 (Fin 0)"

definition mixed_catalog :: "string proc" where
  "mixed_catalog =
     \<lparr>meta = map (\<lambda>n. [n, n, n, n]) [''1'', ''2'', ''3'', ''4'', ''5'', ''6'', ''7''],
      embeddings = 0,
      heap = [concat (map axis_row [Fin 1, Fin 2, NaN, Fin 1, NaN, Fin 2, Fin 2])]\<rparr>"

text \<open>
  A query of doubles, multiples of \<open>2\<^sup>-\<^sup>3\<^sup>4\<close>, whose squares add up to 1 exactly; its first
  component is a little more than 0.0025.
\<close>

definition dyadic :: "nat \<Rightarrow> real" where
  "dyadic k =
     (if k < 5 then real_of_int ([42949673, 17179815495, 250391, 1930, 739] ! k) / 2 ^ 34 else 0)"

definition dyadic_query :: "jsnum list" where
  "dyadic_query = map (\<lambda>k. Fin (dyadic k)) [0..<512]"

text \<open>
  Stand-ins for the image library and the model: an image library that decodes every
  request to a black image, and models that answer every tensor with one named output of
  512 numbers.
\<close>

definition black_image :: "8 word list \<Rightarrow> error + 8 word list" where
  "black_image buf = Inr (replicate 150528 0)"

definition raw_34 :: "real list" where
  "raw_34 = 3 # 4 # replicate 510 0"


definition model_a :: "jsnum list \<Rightarrow> error + (string \<times> jsnum list) list" where
  "model_a t = Inr [(''image_embeds'', map Fin raw_34)]"

definition model_b :: "jsnum list \<Rightarrow> error + (string \<times> jsnum list) list" where
  "model_b t = Inr [(''last_hidden_state'', map Fin raw_34)]"

section \<open>Bit fields of a half-precision word\<close>

lemma mantissa_mask: "(0x03FF :: 16 word) = mask 10"
  by (simp add: mask_eq_exp_minus_1)

lemma exponent_mask: "(0x7C00 :: 16 word) = push_bit 10 (mask 5)"
  by (simp add: mask_eq_exp_minus_1 push_bit_eq_mult)

lemma sign_mask: "(0x8000 :: 16 word) = push_bit 15 1"
  by (simp add: push_bit_eq_mult)

lemma mantissa_field: "unat ((h::16 word) AND 0x03FF) = unat h mod 1024"
  unfolding mantissa_mask
  by (simp add: take_bit_eq_mask [symmetric] unsigned_take_bit_eq take_bit_eq_mod unat_mod)

lemma exponent_word: "drop_bit 10 ((h::16 word) AND 0x7C00) = take_bit 5 (drop_bit 10 h)"
  unfolding exponent_mask by (rule bit_word_eqI) (auto simp: bit_simps)

lemma exponent_field: "unat (drop_bit 10 ((h::16 word) AND 0x7C00)) = unat h div 1024 mod 32"
  unfolding exponent_word
  by (simp add: unsigned_take_bit_eq unsigned_drop_bit_eq take_bit_eq_mod drop_bit_eq_div
      unat_mod unat_div)

lemma sign_word: "drop_bit 15 ((h::16 word) AND 0x8000) = (if bit h 15 then 1 else 0)"
  unfolding sign_mask by (rule bit_word_eqI) (auto simp: bit_simps intro!: gr0I)

lemma sign_field: "(unat (drop_bit 15 ((h::16 word) AND 0x8000)) \<noteq> 0) = bit h 15"
  unfolding sign_word by simp

text \<open>
  C2. The decoder is a total function on 16-bit words. With sign bit \<open>bit h 15\<close>,
  exponent field \<open>e = unat h div 1024 mod 32\<close> and mantissa field
  \<open>m = unat h mod 1024\<close> it returns \<open>\<plusminus> 2\<^sup>-\<^sup>1\<^sup>4 * (m / 1024)\<close> when \<open>e = 0\<close>, the signed infinity
  when \<open>e = 31\<close> and \<open>m = 0\<close>, NaN when \<open>e = 31\<close> and \<open>m \<noteq> 0\<close>, and
  \<open>\<plusminus> 2\<^sup>e\<^sup>-\<^sup>1\<^sup>5 * (1 + m / 1024)\<close> otherwise; no bit pattern is left without a value.
\<close>

theorem decode_half_cases:
  "decode_half h =
     (let sg = (if bit h 15 then - 1 else 1);
          e = unat h div 1024 mod 32;
          m = unat h mod 1024
      in if e = 0 then Fin (sg * 2 powi (- 14) * (real m / 1024))
         else if e = 31 then (if m = 0 then (if bit h 15 then NInf else PInf) else NaN)
         else Fin (sg * 2 powi (int e - 15) * (1 + real m / 1024)))"
  unfolding decode_half_def Let_def sign_field exponent_field mantissa_field by simp

text \<open>The decoder on 1, -2, the smallest subnormal, the largest finite value, the infinities, a NaN and 0.\<close>

lemma decode_half_examples:
  "decode_half 0x3C00 = Fin 1"
  "decode_half 0xC000 = Fin (- 2)"
  "decode_half 0x0001 = Fin (1 / 16777216)"
  "decode_half 0x7BFF = Fin 65504"
  "decode_half 0x7C00 = PInf"
  "decode_half 0xFC00 = NInf"
  "decode_half 0x7E00 = NaN"
  "decode_half 0x0000 = Fin 0"
  by (simp_all add: decode_half_def)

section \<open>Rounding: exact values and the error of one operation\<close>

lemma round_even_int [simp]: "round_even (of_int n) = n"
  by (simp add: round_even_def)

lemma round_even_error: "\<bar>of_int (round_even x) - x\<bar> \<le> 1 / 2"
  unfolding round_even_def Let_def by (auto; linarith)

lemma round_even_near: "\<bar>x - of_int n\<bar> < 1 / 2 \<Longrightarrow> round_even x = n"
proof -
  assume a: "\<bar>x - of_int n\<bar> < 1 / 2"
  consider "of_int n \<le> x" | "x < of_int n" by linarith
  then show ?thesis
  proof cases
    case 1
    then have "\<lfloor>x\<rfloor> = n" using a by (intro floor_unique) linarith+
    then show ?thesis using a 1 by (simp add: round_even_def Let_def)
  next
    case 2
    then have f: "\<lfloor>x\<rfloor> = n - 1" using a by (intro floor_unique) (simp, linarith)+
    then show ?thesis using a 2 by (simp add: round_even_def Let_def)
  qed
qed

lemma exponent_from_bounds:
  "e \<le> exponent_from a e n \<and> exponent_from a e n \<le> e + int n \<and>
   (exponent_from a e n = e \<or> 2 powi (exponent_from a e n) \<le> a) \<and>
   (exponent_from a e n = e + int n \<or> a < 2 powi (exponent_from a e n + 1))"
proof (induction n arbitrary: e)
  case 0
  then show ?case by simp
next
  case (Suc n)
  show ?case
  proof (cases "2 powi (e + 1) \<le> a")
    case True
    from Suc [of "e + 1"] True show ?thesis by auto
  next
    case False
    then show ?thesis by simp
  qed
qed

lemma exponent_from_eq:
  assumes "e0 \<le> e" and "e \<le> e0 + int n" and "2 powi e \<le> a" and "a < 2 powi (e + 1)"
  shows "exponent_from a e0 n = e"
proof -
  let ?r = "exponent_from a e0 n"
  note b = exponent_from_bounds [of e0 a n]
  have "\<not> ?r < e"
  proof
    assume lt: "?r < e"
    then have "?r \<noteq> e0 + int n" using assms(2) by simp
    then have "a < 2 powi (?r + 1)" using b by simp
    moreover have "(2::real) powi (?r + 1) \<le> 2 powi e"
      using lt by (intro power_int_increasing) simp_all
    ultimately show False using assms(3) by simp
  qed
  moreover have "\<not> e < ?r"
  proof
    assume gt: "e < ?r"
    then have "?r \<noteq> e0" using assms(1) by simp
    then have "2 powi ?r \<le> a" using b by simp
    moreover have "(2::real) powi (e + 1) \<le> 2 powi ?r"
      using gt by (intro power_int_increasing) simp_all
    ultimately show False using assms(4) by simp
  qed
  ultimately show ?thesis by simp
qed

lemma exponent_from_low: "a < 2 powi (e0 + 1) \<Longrightarrow> exponent_from a e0 n = e0"
  by (cases n) simp_all

lemma power_int_less_exp:
  fixes a b :: int
  shows "(2::real) powi a \<le> x \<Longrightarrow> x < 2 powi b \<Longrightarrow> a < b"
proof (rule ccontr)
  assume 1: "(2::real) powi a \<le> x" and 2: "x < 2 powi b" and "\<not> a < b"
  then have "(2::real) powi b \<le> 2 powi a" by (intro power_int_increasing) simp_all
  with 1 2 show False by simp
qed

lemma fl_round_exact:
  assumes x: "x = of_int m * 2 powi k" and m: "\<bar>m\<bar> < 2 ^ p"
    and k: "emin - int p + 1 \<le> k" and fin: "\<bar>x\<bar> < 2 powi (emax + 1)"
  shows "fl_round p emin emax x = Fin x"
proof -
  define e where "e = exponent_from \<bar>x\<bar> emin (nat (emax + 1 - emin))"
  note b = exponent_from_bounds [of emin "\<bar>x\<bar>" "nat (emax + 1 - emin)", folded e_def]
  have le: "e \<le> k + int p - 1"
  proof (cases "e = emin")
    case True
    then show ?thesis using k by simp
  next
    case False
    then have "2 powi e \<le> \<bar>x\<bar>" using b by simp
    moreover have "\<bar>x\<bar> < 2 powi (k + int p)"
    proof -
      have "\<bar>x\<bar> = \<bar>of_int m\<bar> * 2 powi k" unfolding x by (simp add: abs_mult)
      also have "\<dots> < 2 ^ p * 2 powi k"
      proof (rule mult_strict_right_mono)
        have "real_of_int \<bar>m\<bar> < real_of_int (2 ^ p)" using m by (simp only: of_int_less_iff)
        then show "\<bar>real_of_int m\<bar> < 2 ^ p" by simp
      qed simp
      also have "\<dots> = 2 powi (k + int p)" by (simp add: power_int_add)
      finally show ?thesis .
    qed
    ultimately have "e < k + int p" by (rule power_int_less_exp)
    then show ?thesis by simp
  qed
  define d where "d = nat (k - (e - int p + 1))"
  have kd: "k = (e - int p + 1) + int d" using le by (simp add: d_def)
  have "x / 2 powi (e - int p + 1) = of_int m * 2 ^ d"
    unfolding x by (subst kd) (simp add: power_int_add)
  also have "\<dots> = of_int (m * 2 ^ d)" by simp
  finally have "round_even (x / 2 powi (e - int p + 1)) = m * 2 ^ d"
    by (simp only: round_even_int)
  moreover have "of_int (m * 2 ^ d) * 2 powi (e - int p + 1) = x"
    unfolding x by (subst kd) (simp add: power_int_add)
  ultimately show ?thesis
    using fin unfolding fl_round_def Let_def e_def [symmetric] by simp
qed

lemma fl_round_error:
  assumes x: "\<bar>x\<bar> < 2 powi b" and lo: "emin < b" and hi: "b \<le> emax"
  shows "\<exists>r. fl_round p emin emax x = Fin r \<and> \<bar>r - x\<bar> \<le> 2 powi (b - int p - 1)"
proof -
  define e where "e = exponent_from \<bar>x\<bar> emin (nat (emax + 1 - emin))"
  note bd = exponent_from_bounds [of emin "\<bar>x\<bar>" "nat (emax + 1 - emin)", folded e_def]
  have e: "e < b"
  proof (cases "e = emin")
    case True
    then show ?thesis using lo by simp
  next
    case False
    then have "2 powi e \<le> \<bar>x\<bar>" using bd by simp
    then show ?thesis using x by (rule power_int_less_exp)
  qed
  define u :: real where "u = 2 powi (e - int p + 1)"
  define r where "r = of_int (round_even (x / u)) * u"
  have u0: "0 < u" by (simp add: u_def)
  have "(of_int (round_even (x / u)) - x / u) * u = r - x"
    using u0 by (simp add: r_def left_diff_distrib)
  then have "\<bar>r - x\<bar> = \<bar>(of_int (round_even (x / u)) - x / u) * u\<bar>" by simp
  also have "\<dots> = \<bar>of_int (round_even (x / u)) - x / u\<bar> * u"
    using u0 by (simp only: abs_mult abs_of_pos)
  also have "\<dots> \<le> 1 / 2 * u"
    using u0 round_even_error [of "x / u"] by (intro mult_right_mono) simp_all
  also have "\<dots> = 2 powi (e - int p)" by (simp add: u_def power_int_add)
  also have "\<dots> \<le> 2 powi (b - int p - 1)" using e by (intro power_int_increasing) simp_all
  finally have err: "\<bar>r - x\<bar> \<le> 2 powi (b - int p - 1)" .
  have "(2::real) powi (b - int p - 1) \<le> 2 powi b" by (intro power_int_increasing) simp_all
  then have "\<bar>r\<bar> < 2 powi b + 2 powi b" using err x by linarith
  also have "\<dots> = 2 powi (b + 1)" by (simp add: power_int_add)
  also have "\<dots> \<le> 2 powi (emax + 1)" using hi by (intro power_int_increasing) simp_all
  finally have "fl_round p emin emax x = Fin r"
    unfolding fl_round_def Let_def e_def [symmetric] u_def [symmetric] r_def [symmetric] by simp
  with err show ?thesis by blast
qed

lemma dbl_error: "\<bar>x\<bar> < 4 \<Longrightarrow> \<exists>r. dbl x = Fin r \<and> \<bar>r - x\<bar> \<le> 1 / 2 ^ 52"
  using fl_round_error [of x 2 "- 1022" 1023 53] by (simp add: dbl_def)

lemma f32_error: "\<bar>x\<bar> < 2 \<Longrightarrow> \<exists>r. f32 x = Fin r \<and> \<bar>r - x\<bar> \<le> 1 / 2 ^ 24"
  using fl_round_error [of x 1 "- 126" 127 24] by (simp add: f32_def)

lemma dbl_int: "\<bar>m\<bar> < 2 ^ 53 \<Longrightarrow> dbl (of_int m) = Fin (of_int m)"
  unfolding dbl_def
proof (rule fl_round_exact [where m = m and k = 0])
  assume "\<bar>m\<bar> < 2 ^ 53"
  then have "real_of_int \<bar>m\<bar> < real_of_int (2 ^ 53)" by (simp only: of_int_less_iff)
  then show "\<bar>real_of_int m\<bar> < 2 powi (1023 + 1)" by simp
qed simp_all

lemma f32_int: "\<bar>m\<bar> < 2 ^ 24 \<Longrightarrow> f32 (of_int m) = Fin (of_int m)"
  unfolding f32_def
proof (rule fl_round_exact [where m = m and k = 0])
  assume "\<bar>m\<bar> < 2 ^ 24"
  then have "real_of_int \<bar>m\<bar> < real_of_int (2 ^ 24)" by (simp only: of_int_less_iff)
  then show "\<bar>real_of_int m\<bar> < 2 powi (127 + 1)" by simp
qed simp_all

lemma dbl_small [simp]: "dbl 0 = Fin 0" "dbl 1 = Fin 1" "dbl 2 = Fin 2"
  using dbl_int [of 0] dbl_int [of 1] dbl_int [of 2] by simp_all

lemma f32_small [simp]: "f32 0 = Fin 0" "f32 1 = Fin 1" "f32 2 = Fin 2"
  using f32_int [of 0] f32_int [of 1] f32_int [of 2] by simp_all

lemma dbl_dyadic: "\<bar>m\<bar> < 2 ^ 53 \<Longrightarrow> dbl (of_int m / 2 ^ 34) = Fin (of_int m / 2 ^ 34)"
  unfolding dbl_def
proof (rule fl_round_exact [where m = m and k = "- 34"])
  assume "\<bar>m\<bar> < 2 ^ 53"
  then have "real_of_int \<bar>m\<bar> < real_of_int (2 ^ 53)" by (simp only: of_int_less_iff)
  then have "\<bar>real_of_int m\<bar> < 2 ^ 53" by simp
  then have "\<bar>real_of_int m / 2 ^ 34\<bar> < 2 ^ 53" by (simp add: field_simps)
  then show "\<bar>real_of_int m / 2 ^ 34\<bar> < 2 powi (1023 + 1)" by simp
qed (simp_all add: power_int_minus field_simps)

lemma f32_inexact: "f32 (42949673 / 2 ^ 34) = Fin (10737418 / 2 ^ 32)"
proof -
  have e: "exponent_from \<bar>42949673 / 2 ^ 34\<bar> (- 126) (nat (127 + 1 - (- 126))) = - 9"
    by (rule exponent_from_eq) (simp_all add: power_int_minus field_simps)
  have r: "round_even (42949673 / 4) = 10737418"
    by (rule round_even_near) simp
  show ?thesis
    unfolding f32_def fl_round_def Let_def e
    by (simp add: power_int_minus r)
qed

section \<open>The heap under the loops\<close>

lemma arr_set_length [simp]: "length (arr_set h a k v) = length h"
  by (simp add: arr_set_def)

lemma arr_set_other [simp]: "b \<noteq> a \<Longrightarrow> arr_set h a k v ! b = h ! b"
  by (simp add: arr_set_def)

lemma arr_set_same_length [simp]: "length (arr_set h a k v ! b) = length (h ! b)"
  by (cases "b = a"; cases "a < length h") (simp_all add: arr_set_def list_update_beyond)

lemma score_loop_length [simp]: "length (score_loop q n e sc i h) = length h"
  by (induction q n e sc i h rule: score_loop.induct) (subst score_loop.simps, simp)

lemma score_loop_other: "b \<noteq> sc \<Longrightarrow> score_loop q n e sc i h ! b = h ! b"
  by (induction q n e sc i h rule: score_loop.induct) (subst score_loop.simps, simp)

lemma score_loop_arr_length [simp]: "length (score_loop q n e sc i h ! b) = length (h ! b)"
  by (induction q n e sc i h rule: score_loop.induct) (subst score_loop.simps, simp)

lemma scan_scores_length: "scan q st = (sc, h) \<Longrightarrow> length (h ! sc) = length (meta st)"
  by (auto simp: scan_def alloc_def Let_def nth_append)

section \<open>The sort\<close>

lemma binary_insert_length [simp]: "length (binary_insert cmp xs p) = Suc (length xs)"
  by (simp add: binary_insert_def Let_def)

lemma binary_insert_set [simp]: "set (binary_insert cmp xs p) = insert p (set xs)"
proof -
  have "set (take n xs) \<union> set (drop n xs) = set xs" for n
    by (metis append_take_drop_id set_append)
  then show ?thesis by (auto simp: binary_insert_def Let_def)
qed

lemma foldl_binary_insert_length:
  "length (foldl (binary_insert cmp) acc xs) = length acc + length xs"
  by (induction xs arbitrary: acc) simp_all

lemma foldl_binary_insert_set:
  "set (foldl (binary_insert cmp) acc xs) = set acc \<union> set xs"
  by (induction xs arbitrary: acc) auto

lemma run_more_le: "run_more cmp desc prev rest \<le> length rest"
  by (induction rest arbitrary: prev) auto

lemma count_and_make_run_parts:
  assumes "count_and_make_run cmp xs = (ys, n)"
  shows "n \<le> length xs" and "length ys = length xs" and "set ys = set xs"
    and "drop n ys = drop n xs" and "set (take n ys) = set (take n xs)"
proof -
  show n: "n \<le> length xs"
    using assms run_more_le [of cmp _ _ "tl (tl xs)"]
    by (auto simp: count_and_make_run_def Let_def split: list.splits)
  have ys: "ys = xs \<or> ys = rev (take n xs) @ drop n xs"
    using assms by (auto simp: count_and_make_run_def Let_def split: list.splits if_splits)
  then show "length ys = length xs" and "drop n ys = drop n xs"
    and "set (take n ys) = set (take n xs)"
    using n by auto
  from ys show "set ys = set xs"
    by (metis append_take_drop_id set_append set_rev)
qed

lemma array_sort_length [simp]: "length (array_sort cmp xs) = length xs"
proof (cases "count_and_make_run cmp xs")
  case (Pair ys n)
  then have "length ys = length xs" "n \<le> length xs" by (rule count_and_make_run_parts)+
  then show ?thesis using Pair
    by (simp add: array_sort_def foldl_binary_insert_length)
qed

lemma array_sort_set: "set (array_sort cmp xs) = set xs"
proof (cases "count_and_make_run cmp xs")
  case (Pair ys n)
  then have "set ys = set xs" by (rule count_and_make_run_parts)
  moreover have "set (take n ys) \<union> set (drop n ys) = set ys"
    by (metis append_take_drop_id set_append)
  ultimately show ?thesis using Pair
    by (simp add: array_sort_def foldl_binary_insert_set)
qed

lemma ranking_length [simp]: "length (ranking h sc) = length (h ! sc)"
  by (simp add: ranking_def)


section \<open>Size of the result\<close>



section \<open>Score texts and the numbers they denote\<close>

lemma digit_value_digit: "d < 10 \<Longrightarrow> digit_value (digit d) = d"
proof -
  assume "d < 10"
  then have "d \<in> {0,1,2,3,4,5,6,7,8,9}" by auto
  then show ?thesis by (auto simp: digit_value_def digit_def)
qed

lemma is_digit_digit: "d < 10 \<Longrightarrow> is_digit (digit d)"
proof -
  assume "d < 10"
  then have "d \<in> {0,1,2,3,4,5,6,7,8,9}" by auto
  then show ?thesis by (auto simp: is_digit_def digit_def)
qed

lemma number_of_digits_snoc:
  "number_of_digits (ds @ [c]) = 10 * number_of_digits ds + digit_value c"
  by (simp add: number_of_digits_def)

lemma number_of_digits_digits: "number_of_digits (digits n) = n"
  by (induction n rule: digits.induct)
    (subst digits.simps, auto simp: number_of_digits_snoc digit_value_digit, simp add: number_of_digits_def digit_value_digit)

lemma digits_all_digit: "c \<in> set (digits n) \<Longrightarrow> is_digit c"
  by (induction n rule: digits.induct)
    (subst (asm) digits.simps, auto simp: is_digit_digit split: if_splits)

lemma digits_nonempty: "digits n \<noteq> []"
  by (subst digits.simps) simp

lemma number_of_digits_zero: "number_of_digits (CHR ''0'' # ds) = number_of_digits ds"
  by (simp add: number_of_digits_def digit_value_def)

lemma fixed1_shape:
  "\<exists>m. fixed1 n = take (length m - 1) m @ ''.'' @ drop (length m - 1) m \<and> 2 \<le> length m \<and>
       (\<forall>c\<in>set m. is_digit c) \<and> number_of_digits m = n"
proof (cases "length (digits n) \<le> 1")
  case True
  then have len: "length (digits n) = 1" using digits_nonempty [of n] by (cases "digits n") auto
  let ?m = "CHR ''0'' # digits n"
  have "fixed1 n = take (length ?m - 1) ?m @ ''.'' @ drop (length ?m - 1) ?m"
    using len by (simp add: fixed1_def Let_def)
  moreover have "\<forall>c\<in>set ?m. is_digit c"
    using digits_all_digit [of _ n] by (auto simp: is_digit_def)
  moreover have "number_of_digits ?m = n"
    by (simp add: number_of_digits_zero number_of_digits_digits)
  ultimately show ?thesis using len by (intro exI [of _ ?m]) simp
next
  case False
  let ?m = "digits n"
  have "fixed1 n = take (length ?m - 1) ?m @ ''.'' @ drop (length ?m - 1) ?m"
    using False by (simp add: fixed1_def Let_def)
  then show ?thesis
    using False digits_all_digit [of _ n] number_of_digits_digits [of n]
    by (intro exI [of _ ?m]) auto
qed

lemma number_of_fixed1:
  assumes "sg = ''-'' \<or> sg = []"
  shows "number_of (Shown (sg @ fixed1 n)) = Fin ((if sg = ''-'' then - 1 else 1) * real n / 10)"
proof -
  obtain m where m: "fixed1 n = take (length m - 1) m @ ''.'' @ drop (length m - 1) m"
    and len: "2 \<le> length m" and dig: "\<forall>c\<in>set m. is_digit c" and val: "number_of_digits m = n"
    using fixed1_shape by blast
  let ?s = "sg @ fixed1 n"
  have dot: "CHR ''.'' \<in> set ?s" unfolding m by simp
  have "?s = t \<Longrightarrow> CHR ''.'' \<in> set t" for t using dot by simp
  from this [of "''NaN''"] this [of "''Infinity''"] this [of "''-Infinity''"]
  have names: "?s \<noteq> ''NaN''" "?s \<noteq> ''Infinity''" "?s \<noteq> ''-Infinity''"
    by auto
  have nd: "\<not> is_digit (CHR ''.'')" "\<not> is_digit (CHR ''-'')" by (simp_all add: is_digit_def)
  have "filter is_digit (take (length m - 1) m) = take (length m - 1) m"
    "filter is_digit (drop (length m - 1) m) = drop (length m - 1) m"
    using dig by (auto simp: filter_id_conv dest: in_set_takeD in_set_dropD)
  then have "filter is_digit (fixed1 n) = m" unfolding m using nd by simp
  then have filt: "filter is_digit ?s = m" using assms nd by auto
  have first: "take 1 (fixed1 n) = [hd m]" unfolding m using len by (cases m) auto
  have "is_digit (hd m)" using len dig by (cases m) auto
  then have "hd m \<noteq> CHR ''-''" using nd by auto
  then have sign: "(take 1 ?s = ''-'') = (sg = ''-'')" using assms first by auto
  show ?thesis using names filt sign val by simp
qed

lemma number_of_toFixed1:
  "number_of (toFixed1 v) =
     (case v of Fin x \<Rightarrow> if 10 ^ 21 \<le> \<bar>x\<bar> then Fin x else Fin (round1 x) | _ \<Rightarrow> v)"
proof (cases v)
  case (Fin x)
  have "number_of (Shown ((if x < 0 then ''-'' else []) @ fixed1 (nat \<lfloor>\<bar>x\<bar> * 10 + 1 / 2\<rfloor>))) = Fin (round1 x)"
    by (subst number_of_fixed1) (auto simp: round1_def)
  with Fin show ?thesis by simp
qed simp_all

lemma round1_nonneg: "0 \<le> x \<Longrightarrow> 0 \<le> round1 x"
  by (simp add: round1_def)

lemma round1_nonpos: "x < 0 \<Longrightarrow> round1 x \<le> 0"
proof -
  assume "x < 0"
  moreover have "0 \<le> \<lfloor>\<bar>x\<bar> * 10 + 1 / 2\<rfloor>" by simp
  ultimately show ?thesis by (simp add: round1_def)
qed

lemma round1_mono: "x \<le> y \<Longrightarrow> round1 x \<le> round1 y"
proof -
  assume xy: "x \<le> y"
  consider "0 \<le> x" | "x < 0" "0 \<le> y" | "y < 0" by linarith
  then show ?thesis
  proof cases
    case 1
    then have "\<lfloor>\<bar>x\<bar> * 10 + 1 / 2\<rfloor> \<le> \<lfloor>\<bar>y\<bar> * 10 + 1 / 2\<rfloor>" using xy by (intro floor_mono) simp
    then show ?thesis using 1 xy by (simp add: round1_def divide_right_mono)
  next
    case 2
    then show ?thesis using round1_nonpos [of x] round1_nonneg [of y] by linarith
  next
    case 3
    then have "\<lfloor>\<bar>y\<bar> * 10 + 1 / 2\<rfloor> \<le> \<lfloor>\<bar>x\<bar> * 10 + 1 / 2\<rfloor>" using xy by (intro floor_mono) simp
    then show ?thesis using 3 xy by (simp add: round1_def divide_right_mono)
  qed
qed

lemma round1_abs: "\<bar>round1 x\<bar> = real_of_int \<lfloor>\<bar>x\<bar> * 10 + 1 / 2\<rfloor> / 10"
proof -
  have "0 \<le> \<lfloor>\<bar>x\<bar> * 10 + 1 / 2\<rfloor>" by simp
  then show ?thesis by (simp add: round1_def abs_mult)
qed

lemma round1_le_100: "\<bar>x\<bar> \<le> 100 \<Longrightarrow> \<bar>round1 x\<bar> \<le> 100"
proof -
  assume "\<bar>x\<bar> \<le> 100"
  then have "\<lfloor>\<bar>x\<bar> * 10 + 1 / 2\<rfloor> \<le> \<lfloor>(1000::real) + 1 / 2\<rfloor>" by (intro floor_mono) simp
  also have "\<dots> = 1000" by simp
  finally show ?thesis by (simp add: round1_abs)
qed

lemma round1_near: "\<bar>round1 x - x\<bar> \<le> 1 / 20"
proof -
  define r where "r = real_of_int \<lfloor>\<bar>x\<bar> * 10 + 1 / 2\<rfloor>"
  have b: "r \<le> \<bar>x\<bar> * 10 + 1 / 2" "\<bar>x\<bar> * 10 + 1 / 2 < r + 1"
    unfolding r_def by linarith+
  have r1: "round1 x = (if x < 0 then - r / 10 else r / 10)"
    by (simp add: round1_def r_def)
  show ?thesis
  proof (cases "x < 0")
    case True
    then have "round1 x = - r / 10" using r1 by simp
    moreover have "r \<le> - x * 10 + 1 / 2" "- x * 10 + 1 / 2 < r + 1" using b True by simp_all
    ultimately show ?thesis by linarith
  next
    case False
    then have "round1 x = r / 10" using r1 by simp
    moreover have "r \<le> x * 10 + 1 / 2" "x * 10 + 1 / 2 < r + 1" using b False by simp_all
    ultimately show ?thesis by linarith
  qed
qed

lemma round1_le_100_near: "\<bar>x\<bar> < 100 + 1 / 20 \<Longrightarrow> \<bar>round1 x\<bar> \<le> 100"
proof -
  assume "\<bar>x\<bar> < 100 + 1 / 20"
  then have "\<bar>x\<bar> * 10 + 1 / 2 < real_of_int 1001" by simp
  then have "\<lfloor>\<bar>x\<bar> * 10 + 1 / 2\<rfloor> < 1001" by (simp only: floor_less_iff)
  then show ?thesis by (simp add: round1_abs)
qed

section \<open>The comparator and the stable order\<close>

lemma negative_sub: "negative (fsub a b) = positive (fsub b a)"
  by (cases a; cases b) (auto simp: fsub_def)

lemma positive_sub_trans:
  "positive (fsub a b) \<Longrightarrow> positive (fsub b c) \<Longrightarrow> positive (fsub a c)"
  by (cases a; cases b; cases c) (auto simp: fsub_def)

lemma positive_sub_irrefl: "\<not> positive (fsub a a)"
  by (cases a) (auto simp: fsub_def)

lemma positive_sub_asym: "positive (fsub a b) \<Longrightarrow> \<not> positive (fsub b a)"
  using positive_sub_trans positive_sub_irrefl by blast

lemma positive_sub_fge: "a \<noteq> NaN \<Longrightarrow> b \<noteq> NaN \<Longrightarrow> \<not> positive (fsub b a) \<Longrightarrow> fge a b"
  by (cases a; cases b) (auto simp: fsub_def)

lemma not_positive_trans:
  "a \<noteq> NaN \<Longrightarrow> b \<noteq> NaN \<Longrightarrow> c \<noteq> NaN \<Longrightarrow>
   \<not> positive (fsub a b) \<Longrightarrow> \<not> positive (fsub b c) \<Longrightarrow> \<not> positive (fsub a c)"
  by (cases a; cases b; cases c) (auto simp: fsub_def)

lemma positive_not_positive:
  "x \<noteq> NaN \<Longrightarrow> y \<noteq> NaN \<Longrightarrow> z \<noteq> NaN \<Longrightarrow>
   positive (fsub x y) \<Longrightarrow> \<not> positive (fsub z y) \<Longrightarrow> positive (fsub x z)"
  by (cases x; cases y; cases z) (auto simp: fsub_def)

lemma sorted_wrt_conj:
  "sorted_wrt P xs \<Longrightarrow> sorted_wrt Q xs \<Longrightarrow> sorted_wrt (\<lambda>a b. P a b \<and> Q a b) xs"
  by (induction xs) auto

lemma run_ascending:
  assumes "\<forall>x\<in>set (prev # rest). s x \<noteq> NaN"
  shows "sorted_wrt (\<lambda>a b. \<not> positive (fsub (s b) (s a)))
           (prev # take (run_more (\<lambda>a b. fsub (s b) (s a)) False prev rest) rest)"
  using assms
proof (induction rest arbitrary: prev)
  case Nil
  then show ?case by simp
next
  case (Cons cur rest)
  let ?cmp = "\<lambda>a b. fsub (s b) (s a)"
  show ?case
  proof (cases "positive (fsub (s cur) (s prev))")
    case True
    then show ?thesis by (simp add: negative_sub)
  next
    case False
    have IH: "sorted_wrt (\<lambda>a b. \<not> positive (fsub (s b) (s a)))
        (cur # take (run_more ?cmp False cur rest) rest)"
      using Cons.prems by (intro Cons.IH) simp
    have "\<not> positive (fsub (s z) (s prev))"
      if "z \<in> set (take (run_more ?cmp False cur rest) rest)" for z
    proof -
      have "\<not> positive (fsub (s z) (s cur))" using IH that by simp
      moreover have "z \<in> set rest" using that by (rule in_set_takeD)
      ultimately show ?thesis
        using False Cons.prems by (intro not_positive_trans [of "s z" "s cur" "s prev"]) auto
    qed
    then show ?thesis using False IH by (simp add: negative_sub)
  qed
qed

lemma run_descending:
  "sorted_wrt (\<lambda>a b. positive (fsub (s b) (s a)))
     (prev # take (run_more (\<lambda>a b. fsub (s b) (s a)) True prev rest) rest)"
proof (induction rest arbitrary: prev)
  case Nil
  then show ?case by simp
next
  case (Cons cur rest)
  let ?cmp = "\<lambda>a b. fsub (s b) (s a)"
  show ?case
  proof (cases "positive (fsub (s cur) (s prev))")
    case False
    then show ?thesis by (simp add: negative_sub)
  next
    case True
    have IH: "sorted_wrt (\<lambda>a b. positive (fsub (s b) (s a)))
        (cur # take (run_more ?cmp True cur rest) rest)"
      by (rule Cons.IH)
    have "positive (fsub (s z) (s prev))"
      if "z \<in> set (take (run_more ?cmp True cur rest) rest)" for z
    proof -
      have "positive (fsub (s z) (s cur))" using IH that by simp
      then show ?thesis using True by (rule positive_sub_trans)
    qed
    then show ?thesis using True IH by (simp add: negative_sub)
  qed
qed

lemma first_run_sorted:
  assumes run: "count_and_make_run (\<lambda>a b. fsub (s b) (s a)) xs = (ys, n)"
    and inc: "sorted_wrt (<) xs" and nf: "\<forall>x\<in>set xs. s x \<noteq> NaN"
  shows "sorted_wrt (may_precede s) (take n ys)"
proof (cases xs)
  case Nil
  then show ?thesis using run by (simp add: count_and_make_run_def)
next
  case (Cons a xs')
  let ?cmp = "\<lambda>a b. fsub (s b) (s a)"
  show ?thesis
  proof (cases xs')
    case Nil
    then show ?thesis using run Cons by (auto simp: count_and_make_run_def)
  next
    case (Cons b rest)
    let ?desc = "positive (fsub (s b) (s a))"
    let ?m = "run_more ?cmp ?desc a (b # rest)"
    have xs: "xs = a # b # rest" using \<open>xs = a # xs'\<close> Cons by simp
    have n: "n = Suc ?m"
      using run unfolding xs by (auto simp: count_and_make_run_def Let_def negative_sub)
    have tk: "take n xs = a # take ?m (b # rest)" unfolding n xs by simp
    show ?thesis
    proof (cases ?desc)
      case True
      then have ys: "ys = rev (take n xs) @ drop n xs"
        using run unfolding xs by (auto simp: count_and_make_run_def Let_def negative_sub)
      have "n \<le> length xs" using run by (rule count_and_make_run_parts)
      then have "take n ys = rev (take n xs)" unfolding ys by simp
      moreover have "sorted_wrt (\<lambda>a b. positive (fsub (s b) (s a))) (a # take ?m (b # rest))"
        using True run_descending [of s a "b # rest"] by simp
      then have "sorted_wrt (\<lambda>a b. positive (fsub (s a) (s b))) (rev (take n xs))"
        unfolding tk by (simp only: sorted_wrt_rev)
      then have "sorted_wrt (may_precede s) (rev (take n xs))"
      proof (rule sorted_wrt_mono_rel [rotated])
        fix x y
        assume "positive (fsub (s x) (s y))"
        then show "may_precede s x y"
          using positive_sub_asym [of "s x" "s y"] positive_sub_irrefl [of "s x"]
          by (auto simp: may_precede_def)
      qed
      ultimately show ?thesis by simp
    next
      case False
      then have ys: "ys = xs"
        using run unfolding xs by (auto simp: count_and_make_run_def Let_def negative_sub)
      have 1: "sorted_wrt (\<lambda>a b. \<not> positive (fsub (s b) (s a))) (take n xs)"
        unfolding tk using False nf run_ascending [of a "b # rest" s] by (simp add: xs)
      have 2: "sorted_wrt (<) (take n xs)" using inc by (rule sorted_wrt_take)
      from sorted_wrt_conj [OF 1 2]
      have "sorted_wrt (may_precede s) (take n xs)"
        by (rule sorted_wrt_mono_rel [rotated]) (simp add: may_precede_def)
      then show ?thesis unfolding ys .
    qed
  qed
qed

lemma binary_search_position:
  assumes "left \<le> right" and "right \<le> length xs"
    and "\<And>k. k < left \<Longrightarrow> \<not> N k" and "\<And>k. right \<le> k \<Longrightarrow> k < length xs \<Longrightarrow> N k"
    and "\<And>k k'. k \<le> k' \<Longrightarrow> k' < length xs \<Longrightarrow> N k \<Longrightarrow> N k'"
    and "\<And>k. k < length xs \<Longrightarrow> N k = negative (cmp pivot (xs ! k))"
  shows "binary_search cmp pivot xs left right \<le> length xs \<and>
         (\<forall>k < binary_search cmp pivot xs left right. \<not> N k) \<and>
         (\<forall>k. binary_search cmp pivot xs left right \<le> k \<and> k < length xs \<longrightarrow> N k)"
  using assms
proof (induction cmp pivot xs left right rule: binary_search.induct)
  case (1 cmp pivot xs left right)
  show ?case
  proof (cases "left < right")
    case False
    then have "left = right" using "1.prems"(1) by simp
    then show ?thesis using False "1.prems" by (subst (1 2 3) binary_search.simps) auto
  next
    case True
    let ?mid = "left + (right - left) div 2"
    have mid: "left \<le> ?mid" "?mid < right" using True by auto
    then have midlen: "?mid < length xs" using "1.prems"(2) by simp
    show ?thesis
    proof (cases "negative (cmp pivot (xs ! ?mid))")
      case neg: True
      then have Nmid: "N ?mid" using "1.prems"(6) midlen by simp
      have up: "\<And>k. ?mid \<le> k \<Longrightarrow> k < length xs \<Longrightarrow> N k"
        using "1.prems"(5) Nmid by blast
      have "binary_search cmp pivot xs left ?mid \<le> length xs \<and>
         (\<forall>k < binary_search cmp pivot xs left ?mid. \<not> N k) \<and>
         (\<forall>k. binary_search cmp pivot xs left ?mid \<le> k \<and> k < length xs \<longrightarrow> N k)"
        using True neg mid midlen "1.prems"(3,5,6) up
        by (intro "1.IH"(1)) auto
      then show ?thesis using True neg by (subst (1 2 3) binary_search.simps) (simp add: Let_def)
    next
      case nonneg: False
      then have Nmid: "\<not> N ?mid" using "1.prems"(6) midlen by simp
      have down: "\<And>k. k < ?mid + 1 \<Longrightarrow> \<not> N k"
      proof
        fix k assume "k < ?mid + 1" "N k"
        then have "N ?mid" using "1.prems"(5) [of k ?mid] midlen by simp
        with Nmid show False by simp
      qed
      have "binary_search cmp pivot xs (?mid + 1) right \<le> length xs \<and>
         (\<forall>k < binary_search cmp pivot xs (?mid + 1) right. \<not> N k) \<and>
         (\<forall>k. binary_search cmp pivot xs (?mid + 1) right \<le> k \<and> k < length xs \<longrightarrow> N k)"
        using True nonneg mid "1.prems"(2,4,5,6) down
        by (intro "1.IH"(2)) auto
      then show ?thesis using True nonneg by (subst (1 2 3) binary_search.simps) (simp add: Let_def)
    qed
  qed
qed

lemma binary_insert_sorted:
  assumes sorted: "sorted_wrt (may_precede s) ys"
    and nf: "\<forall>y\<in>set ys. s y \<noteq> NaN" "s x \<noteq> NaN"
    and lt: "\<forall>y\<in>set ys. y < x"
  shows "sorted_wrt (may_precede s) (binary_insert (\<lambda>a b. fsub (s b) (s a)) ys x)"
proof -
  let ?cmp = "\<lambda>a b. fsub (s b) (s a)"
  let ?N = "\<lambda>k. positive (fsub (s x) (s (ys ! k)))"
  let ?p = "binary_search ?cmp x ys 0 (length ys)"
  have mono: "?N k'" if "k \<le> k'" "k' < length ys" "?N k" for k k'
  proof (cases "k = k'")
    case True
    then show ?thesis using that by simp
  next
    case False
    then have "k < k'" using that by simp
    then have "may_precede s (ys ! k) (ys ! k')"
      using sorted that(2) by (simp add: sorted_wrt_iff_nth_less)
    then have "\<not> positive (fsub (s (ys ! k')) (s (ys ! k)))" by (simp add: may_precede_def)
    then show ?thesis
      using that nf by (intro positive_not_positive [of "s x" "s (ys ! k)" "s (ys ! k')"]) auto
  qed
  have pos: "?p \<le> length ys \<and> (\<forall>k < ?p. \<not> ?N k) \<and> (\<forall>k. ?p \<le> k \<and> k < length ys \<longrightarrow> ?N k)"
    by (rule binary_search_position [where N = ?N]) (use mono in \<open>auto simp: negative_sub\<close>)
  have before: "may_precede s y x" if y: "y \<in> set (take ?p ys)" for y
  proof -
    obtain k where "k < length (take ?p ys)" "take ?p ys ! k = y"
      using y unfolding in_set_conv_nth by blast
    then have k: "k < ?p" "k < length ys" "y = ys ! k" by auto
    then have "\<not> positive (fsub (s x) (s y))" using pos by simp
    moreover have "y < x" using k lt by auto
    ultimately show ?thesis by (simp add: may_precede_def)
  qed
  have after: "may_precede s x z" if z: "z \<in> set (drop ?p ys)" for z
  proof -
    obtain k where "k < length (drop ?p ys)" "drop ?p ys ! k = z"
      using z unfolding in_set_conv_nth by blast
    then have k: "?p + k < length ys" "z = ys ! (?p + k)" using pos by auto
    then have "positive (fsub (s x) (s z))" using pos by simp
    then show ?thesis
      using positive_sub_asym [of "s x" "s z"] positive_sub_irrefl [of "s x"]
      by (auto simp: may_precede_def)
  qed
  have across: "may_precede s y z" if "y \<in> set (take ?p ys)" "z \<in> set (drop ?p ys)" for y z
  proof -
    have "sorted_wrt (may_precede s) (take ?p ys @ drop ?p ys)" using sorted by simp
    then show ?thesis using that unfolding sorted_wrt_append by blast
  qed
  have "sorted_wrt (may_precede s) (take ?p ys)" "sorted_wrt (may_precede s) (drop ?p ys)"
    using sorted by (simp_all add: sorted_wrt_take sorted_wrt_drop)
  then show ?thesis
    using before after across by (auto simp: binary_insert_def Let_def sorted_wrt_append)
qed

lemma foldl_binary_insert_sorted:
  assumes "sorted_wrt (may_precede s) acc" and "sorted_wrt (<) xs"
    and "\<forall>y\<in>set acc. \<forall>x\<in>set xs. y < x"
    and "\<forall>y\<in>set acc \<union> set xs. s y \<noteq> NaN"
  shows "sorted_wrt (may_precede s) (foldl (binary_insert (\<lambda>a b. fsub (s b) (s a))) acc xs)"
  using assms
proof (induction xs arbitrary: acc)
  case Nil
  then show ?case by simp
next
  case (Cons x xs)
  have "sorted_wrt (may_precede s) (binary_insert (\<lambda>a b. fsub (s b) (s a)) acc x)"
    using Cons.prems by (intro binary_insert_sorted) auto
  then show ?case using Cons.prems by (simp, intro Cons.IH) auto
qed

lemma array_sort_sorted:
  assumes "sorted_wrt (<) xs" and "\<forall>x\<in>set xs. s x \<noteq> NaN"
  shows "sorted_wrt (may_precede s) (array_sort (\<lambda>a b. fsub (s b) (s a)) xs)"
proof (cases "length xs < 2")
  case True
  then have "xs = [] \<or> (\<exists>x. xs = [x])" by (cases xs; cases "tl xs") auto
  then show ?thesis by (auto simp: array_sort_def)
next
  case False
  let ?cmp = "\<lambda>a b. fsub (s b) (s a)"
  obtain ys n where run: "count_and_make_run ?cmp xs = (ys, n)" by (cases "count_and_make_run ?cmp xs")
  note parts = count_and_make_run_parts [OF run]
  have first: "sorted_wrt (may_precede s) (take n ys)"
    using run assms by (rule first_run_sorted)
  have rest: "sorted_wrt (<) (drop n ys)" using assms(1) parts(4) by (simp add: sorted_wrt_drop)
  have "sorted_wrt (<) (take n xs @ drop n xs)" using assms(1) by simp
  then have cross: "\<forall>y\<in>set (take n ys). \<forall>x\<in>set (drop n ys). y < x"
    unfolding parts(4) parts(5) sorted_wrt_append by blast
  have "set (take n ys) \<union> set (drop n ys) = set xs"
    unfolding parts(4) parts(5) by (metis append_take_drop_id set_append)
  then have nf: "\<forall>y\<in>set (take n ys) \<union> set (drop n ys). s y \<noteq> NaN" using assms(2) by simp
  have "sorted_wrt (may_precede s) (foldl (binary_insert ?cmp) (take n ys) (drop n ys))"
    using first rest cross nf by (rule foldl_binary_insert_sorted)
  then show ?thesis using False run by (simp add: array_sort_def)
qed

lemma ranking_sorted:
  assumes "\<forall>i<length (h ! sc). arr_get h sc i \<noteq> NaN"
  shows "sorted_wrt (may_precede (arr_get h sc)) (ranking h sc)"
  unfolding ranking_def using assms by (intro array_sort_sorted) auto

lemma ranking_set: "set (ranking h sc) = {..<length (h ! sc)}"
  by (auto simp: ranking_def array_sort_set)

lemma slice0_take: "\<exists>m. slice0 xs k = take m xs"
  by (auto simp: slice0_def)

lemma slice0_sorted: "sorted_wrt P xs \<Longrightarrow> sorted_wrt P (slice0 xs k)"
  using slice0_take [of xs k] by (auto simp: sorted_wrt_take)

lemma ranking_distinct_pos:
  assumes "p < length (ranking h sc)" "p' < length (ranking h sc)"
    "ranking h sc ! p = i" "ranking h sc ! p' = j" "i < j" "arr_get h sc i = arr_get h sc j"
    and nf: "\<forall>i<length (h ! sc). arr_get h sc i \<noteq> NaN"
  shows "p < p'"
proof (rule ccontr)
  assume "\<not> p < p'"
  moreover have "p \<noteq> p'" using assms(3,4,5) by auto
  ultimately have "p' < p" by simp
  then have "may_precede (arr_get h sc) j i"
    using ranking_sorted [OF nf] assms(1,3,4) by (auto simp: sorted_wrt_iff_nth_less)
  then show False using assms(5,6) by (simp add: may_precede_def)
qed

section \<open>The scores after the scan\<close>

lemma dot_loop_cong: "h' ! e = h ! e \<Longrightarrow> dot_loop q h' e off j d = dot_loop q h e off j d"
proof (induction q h e off j d rule: dot_loop.induct)
  case (1 query h e off j dot)
  then show ?case
    by (subst dot_loop.simps, subst (2) dot_loop.simps) (simp add: arr_get_def)
qed

lemma score_loop_scores:
  "e \<noteq> sc \<Longrightarrow> sc < length h \<Longrightarrow> k < length (h ! sc) \<Longrightarrow>
   score_loop q n e sc i h ! sc ! k =
     (if i \<le> k \<and> k < n then rounded f32 (dot_loop q h e (k * 512) 0 (Fin 0)) else h ! sc ! k)"
proof (induction q n e sc i h rule: score_loop.induct)
  case (1 query n e sc i h)
  show ?case
  proof (cases "i < n")
    case False
    then show ?thesis by (subst score_loop.simps) auto
  next
    case True
    let ?h = "arr_set h sc i (rounded f32 (dot_loop query h e (i * 512) 0 (Fin 0)))"
    have e: "?h ! e = h ! e" using "1.prems" by simp
    have len: "length (?h ! sc) = length (h ! sc)" by simp
    have IH: "score_loop query n e sc (i + 1) ?h ! sc ! k =
        (if i + 1 \<le> k \<and> k < n then rounded f32 (dot_loop query ?h e (k * 512) 0 (Fin 0)) else ?h ! sc ! k)"
      using "1.IH" [OF True] "1.prems" by simp
    have upd: "?h ! sc ! k = (if k = i then rounded f32 (dot_loop query h e (i * 512) 0 (Fin 0)) else h ! sc ! k)"
      using "1.prems" by (simp add: arr_set_def nth_list_update)
    show ?thesis
      using True IH upd dot_loop_cong [OF e, of query "k * 512" 0 "Fin 0"]
      by (subst score_loop.simps) auto
  qed
qed

lemma scan_fst: "fst (scan q st) = length (heap st)"
  by (simp add: scan_def alloc_def)

lemma scan_score:
  assumes "scan q st = (sc, h)" "embeddings st < length (heap st)" "i < length (meta st)"
  shows "arr_get h sc i = rounded f32 (dot_loop q (heap st) (embeddings st) (i * 512) 0 (Fin 0))"
proof -
  let ?h0 = "heap st @ [replicate (length (meta st)) (Fin 0)]"
  have sc: "sc = length (heap st)"
    and h: "h = score_loop q (length (meta st)) (embeddings st) sc 0 ?h0"
    using assms(1) by (auto simp: scan_def alloc_def)
  have "h ! sc ! i = rounded f32 (dot_loop q ?h0 (embeddings st) (i * 512) 0 (Fin 0))"
    unfolding h using assms(2,3) sc by (subst score_loop_scores) (auto simp: nth_append)
  moreover have "?h0 ! embeddings st = heap st ! embeddings st"
    using assms(2) by (simp add: nth_append)
  then have "dot_loop q ?h0 (embeddings st) (i * 512) 0 (Fin 0) =
      dot_loop q (heap st) (embeddings st) (i * 512) 0 (Fin 0)"
    by (rule dot_loop_cong)
  moreover have "length (h ! sc) = length (meta st)" using assms(1) by (rule scan_scores_length)
  ultimately show ?thesis using assms(3) by (simp add: arr_get_def num_at_def)
qed

lemma search_results:
  "scan q st = (sc, h) \<Longrightarrow>
   fst (search q k st) = map (hit (meta st) h sc) (slice0 (ranking h sc) k)"
  by (simp add: search_def)

section \<open>Scores and ranking of a search\<close>

lemma scores_length [simp]: "length (scores q st) = length (meta st)"
  by (cases "scan q st") (simp add: scores_def scan_scores_length)

lemma scores_nth:
  "embeddings st < length (heap st) \<Longrightarrow> i < length (meta st) \<Longrightarrow>
   scores q st ! i = rounded f32 (dot_loop q (heap st) (embeddings st) (i * 512) 0 (Fin 0))"
  using scan_score [of q st "fst (scan q st)" "snd (scan q st)" i] scores_length [of q st]
  by (simp add: scores_def arr_get_def num_at_def split: prod.splits)

lemma ranked_eq:
  "ranked q k st =
     slice0 (array_sort (\<lambda>a b. fsub (num_at (scores q st) b) (num_at (scores q st) a))
       [0..<length (meta st)]) k"
  by (cases "scan q st") (simp add: ranked_def scores_def ranking_def arr_get_def scan_scores_length)

lemma search_eq: "fst (search q k st) = map (result_of st (scores q st)) (ranked q k st)"
  by (cases "scan q st")
    (auto simp: search_def ranked_def scores_def hit_def result_of_def arr_get_def)

lemma arr_get_fun: "arr_get h sc = num_at (h ! sc)"
  by (rule ext) (simp add: arr_get_def)

lemma scores_no_NaN:
  assumes "NaN \<notin> set (scores q st)" and "scan q st = (sc, h)"
  shows "\<forall>i<length (h ! sc). arr_get h sc i \<noteq> NaN"
proof (intro allI impI)
  fix i assume i: "i < length (h ! sc)"
  have "scores q st = h ! sc" using assms(2) by (simp add: scores_def)
  then have "h ! sc ! i \<in> set (scores q st)" using i by simp
  then have "h ! sc ! i \<noteq> NaN" using assms(1) by metis
  then show "arr_get h sc i \<noteq> NaN" using i by (simp add: arr_get_def num_at_def)
qed

lemma ranked_sorted:
  assumes "NaN \<notin> set (scores q st)"
  shows "sorted_wrt (may_precede (num_at (scores q st))) (ranked q k st)"
proof -
  obtain sc h where scan: "scan q st = (sc, h)" by (cases "scan q st")
  have "sorted_wrt (may_precede (arr_get h sc)) (ranking h sc)"
    using scores_no_NaN [OF assms scan] by (rule ranking_sorted)
  then show ?thesis using scan by (simp add: ranked_def scores_def arr_get_fun slice0_sorted)
qed

lemma ranked_set: "set (ranked q k st) \<subseteq> {..<length (meta st)}"
  using slice0_take [of "ranking (snd (scan q st)) (fst (scan q st))" k]
  by (cases "scan q st") (auto simp: ranked_def scan_scores_length dest!: in_set_takeD simp: ranking_set)


section \<open>The dot product as the machine computes it\<close>

lemma dadd_NaN [simp]: "dadd NaN d = NaN" "dadd d NaN = NaN"
  by (cases d; simp add: dadd_def)+

lemma dadd_Fin [simp]: "dadd (Fin a) (Fin b) = dbl (a + b)"
  by (simp add: dadd_def)

lemma dmul_Fin [simp]: "dmul (Fin a) (Fin b) = dbl (a * b)"
  by (simp add: dmul_def)

lemma dmul_NaN: "fmul a b = NaN \<Longrightarrow> dmul a b = NaN"
  by (simp add: dmul_def)

lemma dot_loop_NaN: "dot_loop q h e off j NaN = NaN"
  by (induction q h e off j "NaN" rule: dot_loop.induct) (subst dot_loop.simps, simp)

lemma dot_loop_hits_NaN:
  "j \<le> j0 \<Longrightarrow> j0 < 512 \<Longrightarrow> fmul (num_at q j0) (arr_get h e (off + j0)) = NaN \<Longrightarrow>
   dot_loop q h e off j d = NaN"
proof (induction q h e off j d rule: dot_loop.induct)
  case (1 query h e off j dot)
  show ?case
  proof (cases "j = j0")
    case True
    then show ?thesis using "1.prems" by (subst dot_loop.simps) (simp add: dmul_NaN dot_loop_NaN)
  next
    case False
    then show ?thesis using "1.prems" "1.IH" by (subst dot_loop.simps) simp
  qed
qed

text \<open>Once the remaining products are zero, a double stays what it is.\<close>

lemma dot_loop_zero_tail:
  "\<forall>k. j \<le> k \<and> k < 512 \<longrightarrow> dmul (num_at q k) (arr_get h e (off + k)) = Fin 0 \<Longrightarrow>
   dadd d (Fin 0) = d \<Longrightarrow> dot_loop q h e off j d = d"
proof (induction q h e off j d rule: dot_loop.induct)
  case (1 query h e off j dot)
  show ?case
  proof (cases "j < 512")
    case True
    let ?d = "dadd dot (dmul (num_at query j) (arr_get h e (off + j)))"
    have step: "?d = dot" using True "1.prems" by simp
    have "dot_loop query h e off (j + 1) ?d = ?d"
      using True "1.prems" step by (intro "1.IH") simp_all
    then show ?thesis using True step by (subst dot_loop.simps) simp
  next
    case False
    then show ?thesis by (subst dot_loop.simps) simp
  qed
qed

text \<open>
  The error of the accumulation: with all products and partial sums at most 3/2 in
  absolute value, each of the 1024 operations adds at most \<open>2\<^sup>-\<^sup>5\<^sup>2\<close>.
\<close>

lemma dot_loop_rounded:
  assumes q: "\<forall>k<512. num_at q k = Fin (x k)"
    and s: "\<forall>k<512. arr_get h e (off + k) = Fin (y k)"
    and prod: "\<forall>k<512. \<bar>x k * y k\<bar> \<le> 3 / 2"
    and part: "\<forall>n\<le>512. \<bar>\<Sum>k = 0..<n. x k * y k\<bar> \<le> 3 / 2"
    and j: "j \<le> 512"
    and inv: "\<bar>d - (\<Sum>k = 0..<j. x k * y k)\<bar> \<le> 2 * real j / 2 ^ 52"
  shows "\<exists>r. dot_loop q h e off j (Fin d) = Fin r \<and>
             \<bar>r - (\<Sum>k = 0..<512. x k * y k)\<bar> \<le> 1024 / 2 ^ 52"
  using assms
proof (induction q h e off j "Fin d" arbitrary: d rule: dot_loop.induct)
  case (1 query h e off j)
  show ?case
  proof (cases "j < 512")
    case False
    then have "j = 512" using "1.prems"(5) by simp
    then show ?thesis using "1.prems"(6) by (subst dot_loop.simps) simp
  next
    case True
    let ?S = "\<lambda>n. \<Sum>k = 0..<n. x k * y k"
    define eps :: real where "eps = 1 / 2 ^ 52"
    define b where "b = 2 * real j * eps"
    have eps: "0 \<le> eps" "eps \<le> 1 / 1024" by (simp_all add: eps_def)
    have "real j \<le> 511" using True by simp
    then have "real j * eps \<le> 511 * eps" using eps(1) by (rule mult_right_mono)
    then have b: "b \<le> 1" using eps(2) unfolding b_def by linarith
    have inv: "\<bar>d - ?S j\<bar> \<le> b" using "1.prems"(6) by (simp add: b_def eps_def)
    have "\<bar>x j * y j\<bar> \<le> 3 / 2" using "1.prems"(3) True by blast
    then have "\<bar>x j * y j\<bar> < 4" by linarith
    then obtain t where t: "dbl (x j * y j) = Fin t" and "\<bar>t - x j * y j\<bar> \<le> 1 / 2 ^ 52"
      using dbl_error by blast
    then have terr: "\<bar>t - x j * y j\<bar> \<le> eps" by (simp add: eps_def)
    have S: "?S (j + 1) = ?S j + x j * y j" by simp
    have "j + 1 \<le> 512" using True by simp
    then have "\<bar>?S (j + 1)\<bar> \<le> 3 / 2" using "1.prems"(4) by blast
    then have "\<bar>d + t\<bar> < 4" using inv terr b eps unfolding S by linarith
    then obtain d' where d': "dbl (d + t) = Fin d'" and "\<bar>d' - (d + t)\<bar> \<le> 1 / 2 ^ 52"
      using dbl_error by blast
    then have derr: "\<bar>d' - (d + t)\<bar> \<le> eps" by (simp add: eps_def)
    have "\<bar>d' - ?S (j + 1)\<bar> \<le> b + eps + eps"
      using inv terr derr unfolding S by linarith
    also have "\<dots> = 2 * real (j + 1) / 2 ^ 52" by (simp add: b_def eps_def field_simps)
    finally have inv': "\<bar>d' - ?S (j + 1)\<bar> \<le> 2 * real (j + 1) / 2 ^ 52" .
    have step: "dadd (Fin d) (dmul (num_at query j) (arr_get h e (off + j))) = Fin d'"
      using "1.prems"(1,2) True t d' by simp
    have "\<exists>r. dot_loop query h e off (j + 1) (Fin d') = Fin r \<and>
        \<bar>r - ?S 512\<bar> \<le> 1024 / 2 ^ 52"
      using True step "1.prems"(1,2,3,4) inv' by (intro "1.hyps") simp_all
    then show ?thesis using True step by (subst dot_loop.simps) simp
  qed
qed

section \<open>The example catalogs evaluated\<close>

lemma unit_query_at: "k < 512 \<Longrightarrow> num_at unit_query k = Fin (e1 k)"
  by (simp add: unit_query_def num_at_def nth_Cons' e1_def)

lemma dyadic_query_at: "k < 512 \<Longrightarrow> num_at dyadic_query k = Fin (dyadic k)"
  by (simp add: dyadic_query_def num_at_def)

lemma axis_row_length [simp]: "length (axis_row v) = 512"
  by (simp add: axis_row_def)

lemma axis_row_nth: "k < 512 \<Longrightarrow> axis_row v ! k = (if k = 0 then v else Fin 0)"
  by (cases k) (simp_all add: axis_row_def)

lemma axis_length [simp]: "length (concat (map axis_row vs)) = 512 * length vs"
  by (induction vs) simp_all

lemma axis_entry:
  "i < length vs \<Longrightarrow> k < 512 \<Longrightarrow>
   concat (map axis_row vs) ! (i * 512 + k) = (if k = 0 then vs ! i else Fin 0)"
proof (induction vs arbitrary: i)
  case Nil
  then show ?case by simp
next
  case (Cons v vs)
  show ?case
  proof (cases i)
    case 0
    then show ?thesis using Cons.prems by (simp add: nth_append axis_row_nth)
  next
    case (Suc i')
    then have "concat (map axis_row (v # vs)) ! (i * 512 + k) =
        concat (map axis_row vs) ! (i' * 512 + k)"
      by (simp add: nth_append)
    then show ?thesis using Cons Suc by simp
  qed
qed

lemma axis_get:
  "i < length vs \<Longrightarrow> k < 512 \<Longrightarrow>
   arr_get [concat (map axis_row vs)] 0 (i * 512 + k) = (if k = 0 then vs ! i else Fin 0)"
  using axis_entry [of i vs k] by (simp add: arr_get_def num_at_def)

lemma unit_dot: "(\<Sum>k = 0..<512. e1 k * e1 k) = 1"
proof -
  have "(\<Sum>k = 0..<512. e1 k * e1 k) =
      (\<Sum>k \<in> {0..<512::nat}. if k = 0 then 1 else (0::real))"
    by (intro sum.cong) (auto simp: e1_def)
  then show ?thesis by simp
qed

text \<open>
  Against a stored vector along the first axis only the first product counts: the dot
  product is the double \<open>c\<close> nearest to \<open>x 0 * r\<close>.
\<close>

lemma axis_dot_Fin:
  assumes i: "i < length vs" and v: "vs ! i = Fin r"
    and q: "\<forall>k<512. num_at q k = Fin (x k)"
    and c: "dbl (x 0 * r) = Fin c" "dbl c = Fin c"
  shows "dot_loop q [concat (map axis_row vs)] 0 (i * 512) 0 (Fin 0) = Fin c"
proof -
  let ?h = "[concat (map axis_row vs)]"
  have first: "dadd (Fin 0) (dmul (num_at q 0) (arr_get ?h 0 (i * 512 + 0))) = Fin c"
    using i v q c axis_get [of i vs 0] by simp
  have "dmul (num_at q k) (arr_get ?h 0 (i * 512 + k)) = Fin 0" if "1 \<le> k" "k < 512" for k
    using that i q axis_get [of i vs k] by simp
  then have "dot_loop q ?h 0 (i * 512) (0 + 1) (Fin c) = Fin c"
    using c(2) by (intro dot_loop_zero_tail) simp_all
  then show ?thesis using first by (subst dot_loop.simps) simp
qed

lemma axis_dot_NaN:
  assumes "i < length vs" and "vs ! i = NaN"
  shows "dot_loop unit_query [concat (map axis_row vs)] 0 (i * 512) 0 (Fin 0) = NaN"
  by (rule dot_loop_hits_NaN [where ?j0.0 = 0])
    (use assms axis_get [of i vs 0] in \<open>simp_all add: unit_query_def num_at_def\<close>)

lemma axis_scores:
  assumes "heap st = [concat (map axis_row vs)]" and "embeddings st = 0"
    and "length (meta st) = length vs"
    and "\<forall>v\<in>set vs. v = NaN \<or> (\<exists>r. v = Fin r \<and> dbl r = Fin r \<and> f32 r = Fin r)"
  shows "scores unit_query st = vs"
proof (rule nth_equalityI)
  show "length (scores unit_query st) = length vs" using assms(3) by simp
next
  fix i assume "i < length (scores unit_query st)"
  then have i: "i < length vs" using assms(3) by simp
  have sc: "scores unit_query st ! i =
      rounded f32 (dot_loop unit_query [concat (map axis_row vs)] 0 (i * 512) 0 (Fin 0))"
    using scores_nth [of st i unit_query] i assms(1,2,3) by simp
  have "vs ! i = NaN \<or> (\<exists>r. vs ! i = Fin r \<and> dbl r = Fin r \<and> f32 r = Fin r)"
    using i assms(4) by simp
  then show "scores unit_query st ! i = vs ! i"
  proof
    assume "vs ! i = NaN"
    then show ?thesis using i sc by (simp add: axis_dot_NaN)
  next
    assume "\<exists>r. vs ! i = Fin r \<and> dbl r = Fin r \<and> f32 r = Fin r"
    then obtain r where r: "vs ! i = Fin r" "dbl r = Fin r" "f32 r = Fin r" by blast
    have "dot_loop unit_query [concat (map axis_row vs)] 0 (i * 512) 0 (Fin 0) = Fin r"
      using i r(1) by (rule axis_dot_Fin [where x = e1]) (simp_all add: unit_query_at e1_def r(2))
    then show ?thesis using sc r by simp
  qed
qed

lemma twin_heap: "heap twin_catalog = [concat (map axis_row [Fin 1, Fin 1])]"
  by (simp add: twin_catalog_def axis_row_def)

lemma twin_scores: "scores unit_query twin_catalog = [Fin 1, Fin 1]"
  by (rule axis_scores) (simp_all add: twin_catalog_def axis_row_def)

lemma nan_scores: "scores unit_query nan_catalog = [NaN, Fin 1]"
  by (rule axis_scores) (simp_all add: nan_catalog_def axis_row_def)

lemma mixed_scores:
  "scores unit_query mixed_catalog = [Fin 1, Fin 2, NaN, Fin 1, NaN, Fin 2, Fin 2]"
  by (rule axis_scores) (simp_all add: mixed_catalog_def)

lemma dyadic_0: "dyadic 0 = 42949673 / 2 ^ 34"
  by (simp add: dyadic_def)

lemma dyadic_scores:
  "scores dyadic_query twin_catalog = [Fin (10737418 / 2 ^ 32), Fin (10737418 / 2 ^ 32)]"
proof (rule nth_equalityI)
  show "length (scores dyadic_query twin_catalog) =
      length [Fin (10737418 / 2 ^ 32), Fin (10737418 / 2 ^ 32) :: jsnum]"
    by (simp add: twin_catalog_def)
next
  fix i assume "i < length (scores dyadic_query twin_catalog)"
  then have i: "i < 2" by (simp add: twin_catalog_def)
  have d: "dbl (42949673 / 2 ^ 34) = Fin (42949673 / 2 ^ 34)"
    using dbl_dyadic [of 42949673] by simp
  have "dot_loop dyadic_query [concat (map axis_row [Fin 1, Fin 1])] 0 (i * 512) 0 (Fin 0) =
      Fin (42949673 / 2 ^ 34)"
    by (rule axis_dot_Fin [where x = dyadic and r = 1])
      (use i d in \<open>simp_all add: dyadic_query_at dyadic_0 nth_Cons' \<close>)
  moreover have "scores dyadic_query twin_catalog ! i =
      rounded f32 (dot_loop dyadic_query (heap twin_catalog) (embeddings twin_catalog) (i * 512)
        0 (Fin 0))"
    using i by (intro scores_nth) (simp_all add: twin_catalog_def)
  moreover have "embeddings twin_catalog = 0" by (simp add: twin_catalog_def)
  ultimately have "scores dyadic_query twin_catalog ! i = Fin (10737418 / 2 ^ 32)"
    using f32_inexact by (simp add: twin_heap)
  then show "scores dyadic_query twin_catalog ! i =
      [Fin (10737418 / 2 ^ 32), Fin (10737418 / 2 ^ 32)] ! i"
    using i by (simp add: nth_Cons' )
qed

lemma upt_2: "[0..<2] = [0, 1]"
  by (simp add: upt_rec numeral_2_eq_2)

lemma upt_7: "[0..<7] = [0, 1, 2, 3, 4, 5, 6]"
  by (simp add: upt_rec eval_nat_numeral)

lemma nan_size: "length (meta nan_catalog) = 2"
  by (simp add: nan_catalog_def)

lemma twin_size: "length (meta twin_catalog) = 2"
  by (simp add: twin_catalog_def)

lemma mixed_size: "length (meta mixed_catalog) = 7"
  by (simp add: mixed_catalog_def)

lemma mixed_meta:
  "meta mixed_catalog = map (\<lambda>n. [n, n, n, n]) [''1'', ''2'', ''3'', ''4'', ''5'', ''6'', ''7'']"
  by (simp add: mixed_catalog_def)

lemmas sort_eval = array_sort_def count_and_make_run_def binary_insert_def binary_search.simps
  slice0_def num_at_def fsub_def Let_def

lemma nan_ranked: "ranked unit_query 2 nan_catalog = [0, 1]"
  by (simp add: ranked_eq nan_scores nan_size upt_2 sort_eval)

lemma twin_ranked: "ranked unit_query 2 twin_catalog = [0, 1]"
  by (simp add: ranked_eq twin_scores twin_size upt_2 sort_eval)

lemma dyadic_ranked: "ranked dyadic_query 2 twin_catalog = [0, 1]"
  by (simp add: ranked_eq dyadic_scores twin_size upt_2 sort_eval)

lemma mixed_ranked: "ranked unit_query 7 mixed_catalog = [1, 6, 0, 2, 3, 4, 5]"
  by (simp add: ranked_eq mixed_scores mixed_size upt_7 sort_eval)

lemma digits_1000: "digits 1000 = ''1000''"
  by (simp add: digits.simps digit_def)

lemma nan_search_scores:
  "map score (fst (search unit_query 2 nan_catalog)) = [Shown ''NaN'', Shown ''100.0'']"
  by (simp add: search_eq nan_ranked nan_scores result_of_def num_at_def fixed1_def digits_1000)

lemma dyadic_search_scores:
  "map score (fst (search dyadic_query 2 twin_catalog)) = [Shown ''0.2'', Shown ''0.2'']"
  by (simp add: search_eq dyadic_ranked dyadic_scores result_of_def num_at_def fixed1_def
      digits.simps digit_def)

section \<open>Order of the results\<close>

lemma round1_bound: "\<bar>x\<bar> \<le> real_of_int b \<Longrightarrow> \<bar>round1 x\<bar> \<le> real_of_int b"
proof -
  assume "\<bar>x\<bar> \<le> real_of_int b"
  then have "\<lfloor>\<bar>x\<bar> * 10 + 1 / 2\<rfloor> \<le> \<lfloor>real_of_int (b * 10) + 1 / 2\<rfloor>" by (intro floor_mono) simp
  also have "\<dots> = b * 10" by linarith
  finally have "real_of_int \<lfloor>\<bar>x\<bar> * 10 + 1 / 2\<rfloor> \<le> real_of_int (b * 10)" by linarith
  then show ?thesis by (simp add: round1_abs)
qed

lemma round1_big: "\<bar>x\<bar> \<le> 10 ^ 21 \<Longrightarrow> \<bar>round1 x\<bar> \<le> 10 ^ 21"
  using round1_bound [of x "10 ^ 21"] by simp

lemma fmul_100_mono: "fge a b \<Longrightarrow> fge (fmul a (Fin 100)) (fmul b (Fin 100))"
  by (cases a; cases b) auto

lemma shown_mono: "fge a b \<Longrightarrow> fge (number_of (toFixed1 a)) (number_of (toFixed1 b))"
proof (cases a; cases b)
  fix x y
  assume ab: "fge a b" and a: "a = Fin x" and b: "b = Fin y"
  then have yx: "y \<le> x" by simp
  have "fge (number_of (toFixed1 (Fin x))) (number_of (toFixed1 (Fin y)))"
  proof -
    consider "10 ^ 21 \<le> \<bar>x\<bar>" "10 ^ 21 \<le> \<bar>y\<bar>" | "10 ^ 21 \<le> \<bar>x\<bar>" "\<bar>y\<bar> < 10 ^ 21"
      | "\<bar>x\<bar> < 10 ^ 21" "10 ^ 21 \<le> \<bar>y\<bar>" | "\<bar>x\<bar> < 10 ^ 21" "\<bar>y\<bar> < 10 ^ 21"
      by linarith
    then show ?thesis
    proof cases
      case 1
      then show ?thesis using yx by (simp add: number_of_toFixed1 del: toFixed1.simps)
    next
      case 2
      then have "\<bar>round1 y\<bar> \<le> 10 ^ 21" by (intro round1_big) simp
      moreover have "10 ^ 21 \<le> x" using 2 yx by linarith
      ultimately have "round1 y \<le> x" by linarith
      then show ?thesis using 2 by (simp add: number_of_toFixed1 del: toFixed1.simps)
    next
      case 3
      then have "\<bar>round1 x\<bar> \<le> 10 ^ 21" by (intro round1_big) simp
      moreover have "y \<le> - (10 ^ 21)" using 3 yx by linarith
      ultimately have "y \<le> round1 x" by linarith
      then show ?thesis using 3 by (simp add: number_of_toFixed1 del: toFixed1.simps)
    next
      case 4
      then show ?thesis using yx by (simp add: number_of_toFixed1 round1_mono del: toFixed1.simps)
    qed
  qed
  then show ?thesis using a b by simp
qed (auto simp: number_of_toFixed1 simp del: toFixed1.simps)

text \<open>
  C3, as amended. When no score of the scan is NaN, the results are in non-increasing
  order of score: the number denoted by the score text at each position is greater than
  or equal to the one at every later position, and so are the scores they were printed
  from. (With a NaN among the scores the order fails, as the example after the theorem
  shows on \<open>nan_catalog\<close>.)
\<close>

theorem search_sorted:
  assumes "NaN \<notin> set (scores q st)"
  shows "sorted_wrt fge (map (number_of \<circ> score) (fst (search q k st))) \<and>
         sorted_wrt fge (map (num_at (scores q st)) (ranked q k st))"
proof -
  let ?s = "num_at (scores q st)"
  have nn: "?s a \<noteq> NaN" if "a \<in> set (ranked q k st)" for a
  proof -
    have a: "a < length (scores q st)" using that ranked_set [of q k st] by auto
    then have "scores q st ! a \<in> set (scores q st)" by (rule nth_mem)
    moreover have "?s a = scores q st ! a" using a by (simp add: num_at_def)
    ultimately show ?thesis using assms by metis
  qed
  have raw: "fge (?s a) (?s b)"
    if "a \<in> set (ranked q k st)" "b \<in> set (ranked q k st)" "may_precede ?s a b" for a b
    using that nn by (auto simp: may_precede_def intro: positive_sub_fge)
  have 1: "sorted_wrt (\<lambda>a b. fge (?s a) (?s b)) (ranked q k st)"
    using ranked_sorted [OF assms, of k] raw by (rule sorted_wrt_mono_rel [rotated])
  have 2: "sorted_wrt (\<lambda>a b. fge (number_of (toFixed1 (fmul (?s a) (Fin 100))))
      (number_of (toFixed1 (fmul (?s b) (Fin 100))))) (ranked q k st)"
    using 1 by (rule sorted_wrt_mono_rel [rotated]) (intro shown_mono fmul_100_mono)
  show ?thesis using 1 2 by (simp add: search_eq sorted_wrt_map result_of_def comp_def)
qed

theorem search_sorted_witness:
  "NaN \<notin> set (scores unit_query twin_catalog) \<and>
   sorted_wrt fge (map (number_of \<circ> score) (fst (search unit_query 2 twin_catalog)))"
  using search_sorted [of unit_query twin_catalog 2] by (simp add: twin_scores)

theorem search_sorted_counterexample:
  "map score (fst (search unit_query 2 nan_catalog)) = [Shown ''NaN'', Shown ''100.0''] \<and>
   \<not> sorted_wrt fge (map (number_of \<circ> score) (fst (search unit_query 2 nan_catalog)))"
proof -
  have "map score (fst (search unit_query 2 nan_catalog)) = [Shown ''NaN'', Shown ''100.0'']"
    by (rule nan_search_scores)
  moreover from this
  have "map (number_of \<circ> score) (fst (search unit_query 2 nan_catalog)) =
      map number_of [Shown ''NaN'', Shown ''100.0'']"
    by (simp only: map_map [symmetric])
  ultimately show ?thesis by simp
qed

text \<open>
  C10, as amended. When no score of the scan is NaN, ties are broken by ascending catalog
  index: when the scores of the indices \<open>i < j\<close> are equal and \<open>j\<close> is among the results,
  \<open>i\<close> stands at an earlier position. The results are the records of the indices
  \<open>ranked\<close>, and that order is a function of the scores alone. (With a NaN among the
  scores the comparator is inconsistent and the order of equal scores can be reversed, as
  the example after the theorem shows on \<open>mixed_catalog\<close>.)
\<close>

theorem search_tie_break:
  assumes nf: "NaN \<notin> set (scores q st)"
    and ij: "i < j" and eq: "scores q st ! i = scores q st ! j"
    and p': "p' < length (ranked q k st)" and at: "ranked q k st ! p' = j"
  shows "fst (search q k st) = map (result_of st (scores q st)) (ranked q k st) \<and>
         ranked q k st =
           slice0 (array_sort (\<lambda>a b. fsub (num_at (scores q st) b) (num_at (scores q st) a))
             [0..<length (scores q st)]) k \<and>
         (\<exists>p<p'. ranked q k st ! p = i)"
proof -
  obtain sc h where scan: "scan q st = (sc, h)" by (cases "scan q st")
  have r: "ranked q k st = slice0 (ranking h sc) k" and s: "scores q st = h ! sc"
    using scan by (simp_all add: ranked_def scores_def)
  obtain m where m: "slice0 (ranking h sc) k = take m (ranking h sc)"
    using slice0_take by blast
  have p'm: "p' < m" "p' < length (ranking h sc)" and j: "ranking h sc ! p' = j"
    using p' at unfolding r m by auto
  then have "j \<in> set (ranking h sc)" by (metis nth_mem)
  then have jn: "j < length (h ! sc)" by (simp add: ranking_set)
  then have "i \<in> set (ranking h sc)" using ij by (simp add: ranking_set)
  then obtain p where p: "p < length (ranking h sc)" "ranking h sc ! p = i"
    by (auto simp: in_set_conv_nth)
  have "arr_get h sc i = arr_get h sc j" using eq ij jn by (simp add: s arr_get_def num_at_def)
  then have "p < p'"
    by (rule ranking_distinct_pos [OF p(1) p'm(2) p(2) j ij _ scores_no_NaN [OF nf scan]])
  then have "ranked q k st ! p = i" using p p'm unfolding r m by simp
  with \<open>p < p'\<close> show ?thesis by (auto simp: search_eq ranked_eq)
qed

theorem search_tie_break_witness:
  "NaN \<notin> set (scores unit_query twin_catalog) \<and>
   scores unit_query twin_catalog ! 0 = scores unit_query twin_catalog ! 1 \<and>
   ranked unit_query 2 twin_catalog ! 1 = 1 \<and>
   (\<exists>p<1. ranked unit_query 2 twin_catalog ! p = 0)"
  using search_tie_break [of unit_query twin_catalog 0 1 1 2]
  by (simp add: twin_scores twin_ranked)

theorem search_tie_break_counterexample:
  "scores unit_query mixed_catalog = [Fin 1, Fin 2, NaN, Fin 1, NaN, Fin 2, Fin 2] \<and>
   ranked unit_query 7 mixed_catalog = [1, 6, 0, 2, 3, 4, 5] \<and>
   map id' (fst (search unit_query 7 mixed_catalog)) =
     map Some [''2'', ''7'', ''1'', ''3'', ''4'', ''5'', ''6''] \<and>
   scores unit_query mixed_catalog ! 5 = scores unit_query mixed_catalog ! 6 \<and>
   ranked unit_query 7 mixed_catalog ! 1 = 6 \<and>
   \<not> (\<exists>p<1. ranked unit_query 7 mixed_catalog ! p = 5)"
proof -
  have "map id' (fst (search unit_query 7 mixed_catalog)) =
      map Some [''2'', ''7'', ''1'', ''3'', ''4'', ''5'', ''6'']"
    by (simp add: search_eq mixed_ranked result_of_def field_def mixed_meta)
  then show ?thesis by (simp add: mixed_scores mixed_ranked)
qed

section \<open>Startup\<close>

lemma decode_loop_length: "decode_loop bin n i a h = Inr h' \<Longrightarrow> length h' = length h"
proof (induction bin n i a h rule: decode_loop.induct)
  case (1 bin n i a h)
  then show ?case
    by (subst (asm) (2) decode_loop.simps) (auto split: if_splits sum.splits)
qed

lemma decode_loop_succeeds: "n * 2 \<le> length bin \<Longrightarrow> \<exists>h'. decode_loop bin n i a h = Inr h'"
proof (induction bin n i a h rule: decode_loop.induct)
  case (1 bin n i a h)
  show ?case
  proof (cases "i < n")
    case True
    then have "i * 2 + 2 \<le> length bin" using "1.prems" by simp
    then obtain hw where hw: "readUInt16LE bin (i * 2) = Inr hw" by (simp add: readUInt16LE_def)
    then show ?thesis using True "1.IH" [OF True hw "1.prems"] by (subst decode_loop.simps) simp
  next
    case False
    then show ?thesis by (subst decode_loop.simps) simp
  qed
qed

lemma decode_loop_fails:
  "length bin < n * 2 \<Longrightarrow> i < n \<Longrightarrow> decode_loop bin n i a h = Inl RangeError"
proof (induction bin n i a h rule: decode_loop.induct)
  case (1 bin n i a h)
  show ?case
  proof (cases "readUInt16LE bin (i * 2)")
    case (Inl e)
    then have "e = RangeError" by (simp add: readUInt16LE_def split: if_splits)
    then show ?thesis using Inl "1.prems" by (subst decode_loop.simps) simp
  next
    case (Inr hw)
    then have "i * 2 + 2 \<le> length bin" by (simp add: readUInt16LE_def split: if_splits)
    then have "i + 1 < n" using "1.prems" by simp
    then show ?thesis using Inr "1.prems" "1.IH" [OF "1.prems"(2) Inr]
      by (subst decode_loop.simps) simp
  qed
qed

lemma init_loaded:
  "init metadata bin = Inr st \<Longrightarrow>
   meta st = metadata \<and> embeddings st = 0 \<and> length (heap st) = 1"
  by (auto simp: init_def alloc_def split: sum.splits dest: decode_loop_length)

lemma init_succeeds:
  "length metadata * 512 * 2 \<le> length bin \<Longrightarrow> \<exists>st. init metadata bin = Inr st"
  using decode_loop_succeeds [of "length metadata * 512" bin 0 0 "[replicate (length metadata * 512) (Fin 0)]"]
  by (auto simp: init_def alloc_def)

lemma init_fails:
  "length bin < length metadata * 512 * 2 \<Longrightarrow> init metadata bin = Inl RangeError"
proof -
  assume short: "length bin < length metadata * 512 * 2"
  then have "0 < length metadata * 512" by (cases metadata) simp_all
  with short have "decode_loop bin (length metadata * 512) 0 0
      [replicate (length metadata * 512) (Fin 0)] = Inl RangeError"
    by (intro decode_loop_fails) simp_all
  then show ?thesis by (simp add: init_def alloc_def)
qed

text \<open>What a successful \<open>init\<close> leaves in \<^verbatim>\<open>embeddings\<close>: the decoded half-precision words of the blob, in order.\<close>

lemma decode_loop_content:
  "decode_loop bin n i a h = Inr h' \<Longrightarrow> a < length h \<Longrightarrow> k < length (h ! a) \<Longrightarrow>
   h' ! a ! k =
     (if i \<le> k \<and> k < n
      then (case readUInt16LE bin (k * 2) of Inr hw \<Rightarrow> decode_half hw | Inl e \<Rightarrow> h ! a ! k)
      else h ! a ! k)"
proof (induction bin n i a h rule: decode_loop.induct)
  case (1 bin n i a h)
  show ?case
  proof (cases "i < n")
    case False
    then show ?thesis using "1.prems"(1) by (subst (asm) decode_loop.simps) auto
  next
    case True
    then obtain hw where hw: "readUInt16LE bin (i * 2) = Inr hw"
      and rec: "decode_loop bin n (i + 1) a (arr_set h a i (decode_half hw)) = Inr h'"
      using "1.prems"(1) by (subst (asm) decode_loop.simps) (auto split: sum.splits)
    let ?h = "arr_set h a i (decode_half hw)"
    have IH: "h' ! a ! k =
        (if i + 1 \<le> k \<and> k < n
         then (case readUInt16LE bin (k * 2) of Inr hw \<Rightarrow> decode_half hw | Inl e \<Rightarrow> ?h ! a ! k)
         else ?h ! a ! k)"
      using "1.IH" [OF True hw rec] "1.prems"(2,3) by simp
    have upd: "?h ! a ! k = (if k = i then decode_half hw else h ! a ! k)"
      using "1.prems"(2,3) by (simp add: arr_set_def nth_list_update)
    show ?thesis
    proof (cases "k = i")
      case True
      then show ?thesis using \<open>i < n\<close> IH upd hw by simp
    next
      case False
      then show ?thesis using IH upd by (auto split: sum.splits)
    qed
  qed
qed

lemma init_content:
  assumes "init metadata bin = Inr st" and "i < length metadata * 512"
    and "readUInt16LE bin (i * 2) = Inr hw"
  shows "heap st ! embeddings st ! i = decode_half hw"
proof -
  let ?n = "length metadata * 512"
  obtain h' where loop: "decode_loop bin ?n 0 0 [replicate ?n (Fin 0)] = Inr h'"
    and st: "st = \<lparr>meta = metadata, embeddings = 0, heap = h'\<rparr>"
    using assms(1) by (auto simp: init_def alloc_def split: sum.splits)
  have "h' ! 0 ! i =
      (if 0 \<le> i \<and> i < ?n
       then (case readUInt16LE bin (i * 2) of Inr hw \<Rightarrow> decode_half hw
             | Inl e \<Rightarrow> [replicate ?n (Fin 0)] ! 0 ! i)
       else [replicate ?n (Fin 0)] ! 0 ! i)"
    using loop assms(2) by (intro decode_loop_content) simp_all
  then show ?thesis using assms(2,3) st by simp
qed

text \<open>
  C7, as amended. Startup has no check of the blob's size of its own. When the blob is
  shorter than \<open>metadata.length * 512 * 2\<close> bytes, a read of the decoding loop runs off
  its end and startup fails with that RangeError, so the server never listens; with
  that many bytes or more startup succeeds and the server listens, bytes beyond that
  length being ignored.
\<close>

theorem startup_blob_size:
  "(if length metadata * 512 * 2 \<le> length bin
    then is_listening (startup metadata bin)
    else startup metadata bin = Crashed RangeError)"
proof (cases "length metadata * 512 * 2 \<le> length bin")
  case True
  then obtain st where "init metadata bin = Inr st" using init_succeeds by blast
  then show ?thesis using True by (simp add: startup_def)
next
  case False
  then have "init metadata bin = Inl RangeError" by (intro init_fails) simp
  then show ?thesis using False by (simp add: startup_def)
qed

theorem startup_blob_size_counterexample:
  "length (replicate 1026 (0 :: 8 word)) \<noteq> length [[''1'', ''desk'', ''Desk'', ''desk.jpg'']] * 512 * 2 \<and>
   is_listening (startup [[''1'', ''desk'', ''Desk'', ''desk.jpg'']] (replicate 1026 (0 :: 8 word)))"
proof -
  obtain st where "init [[''1'', ''desk'', ''Desk'', ''desk.jpg'']] (replicate 1026 (0 :: 8 word)) = Inr st"
    using init_succeeds [of "[[''1'', ''desk'', ''Desk'', ''desk.jpg'']]" "replicate 1026 (0 :: 8 word)"]
    by auto
  then show ?thesis by (simp add: startup_def)
qed

section \<open>The embedding of a request\<close>

lemma embed_result:
  "fst (embed sharp run buf st) =
     (case sharp buf of
        Inl e \<Rightarrow> Inl e
      | Inr data \<Rightarrow>
          (case run (tensor data (heap st)) of
             Inl e \<Rightarrow> Inl e
           | Inr res \<Rightarrow>
               (case first_output res of Inl e \<Rightarrow> Inl e | Inr emb \<Rightarrow> Inr (l2_normalize emb))))"
  by (simp add: embed_def tensor_def Let_def split: sum.splits prod.splits)














text \<open>
  C6, as amended. \<open>embed\<close> takes the embedding from the first output of the model's
  result set, whatever that output is called; no key is named or checked. Only a result
  set with no output at all makes it fail, with a TypeError.
\<close>

theorem embed_first_output:
  assumes "sharp buf = Inr data" and "run (tensor data (heap st)) = Inr res"
  shows "fst (embed sharp run buf st) =
     (case res of [] \<Rightarrow> Inl TypeError | (name, d) # rest \<Rightarrow> Inr (l2_normalize d))"
  using assms by (simp add: embed_result first_output_def split: list.splits)

theorem embed_first_output_witness:
  "fst (embed black_image model_a [] one_product) = Inr (l2_normalize (map Fin raw_34))"
proof -
  have 1: "black_image [] = Inr (replicate 150528 0)" by (simp add: black_image_def)
  have 2: "model_a (tensor (replicate 150528 0) (heap one_product)) =
      Inr [(''image_embeds'', map Fin raw_34)]"
    by (simp add: model_a_def)
  from embed_first_output [where sharp = black_image and run = model_a, OF 1 2]
  show ?thesis by simp
qed

theorem embed_first_output_counterexample:
  "fst (embed black_image model_a [] one_product) = Inr (l2_normalize (map Fin raw_34)) \<and>
   fst (embed black_image model_b [] one_product) = Inr (l2_normalize (map Fin raw_34))"
  by (simp add: embed_result black_image_def model_a_def model_b_def first_output_def)

section \<open>The tensor of a request\<close>

lemma channel_loop_unrolled:
  "channel_loop data f i 0 h =
     arr_set (arr_set (arr_set h f i (px data i 0)) f (50176 + i) (px data i 1))
       f (100352 + i) (px data i 2)"
  by (simp add: channel_loop.simps) (simp add: numeral_2_eq_2)

lemma channel_loop_length [simp]: "length (channel_loop data f i 0 h) = length h"
  by (simp add: channel_loop_unrolled)

lemma channel_loop_other: "b \<noteq> f \<Longrightarrow> channel_loop data f i 0 h ! b = h ! b"
  by (simp add: channel_loop_unrolled)

lemma channel_loop_arr_length [simp]: "length (channel_loop data f i 0 h ! b) = length (h ! b)"
  by (simp add: channel_loop_unrolled)

lemma channel_loop_at:
  "f < length h \<Longrightarrow> k < length (h ! f) \<Longrightarrow>
   channel_loop data f i 0 h ! f ! k =
     (if k = 100352 + i then px data i 2
      else if k = 50176 + i then px data i 1
      else if k = i then px data i 0
      else h ! f ! k)"
  by (simp add: channel_loop_unrolled arr_set_def nth_list_update)

lemma pixel_loop_length [simp]: "length (pixel_loop data f i h) = length h"
  by (induction data f i h rule: pixel_loop.induct) (subst pixel_loop.simps, simp)

lemma pixel_loop_other: "b \<noteq> f \<Longrightarrow> pixel_loop data f i h ! b = h ! b"
  by (induction data f i h rule: pixel_loop.induct)
    (subst pixel_loop.simps, simp add: channel_loop_other)

lemma pixel_loop_arr_length [simp]: "length (pixel_loop data f i h ! b) = length (h ! b)"
  by (induction data f i h rule: pixel_loop.induct) (subst pixel_loop.simps, simp)

lemma pixel_loop_at:
  "f < length h \<Longrightarrow> length (h ! f) = 150528 \<Longrightarrow> c < 3 \<Longrightarrow> j < 50176 \<Longrightarrow>
   pixel_loop data f i h ! f ! (c * 50176 + j) =
     (if i \<le> j then px data j c else h ! f ! (c * 50176 + j))"
proof (induction data f i h rule: pixel_loop.induct)
  case (1 data f i h)
  show ?case
  proof (cases "i < 50176")
    case False
    then have "\<not> i \<le> j" using "1.prems"(4) by simp
    with False show ?thesis by (subst pixel_loop.simps) simp
  next
    case True
    let ?h = "channel_loop data f i 0 h"
    let ?k = "c * 50176 + j"
    have k: "?k < 150528" using "1.prems"(3,4) by simp
    have IH: "pixel_loop data f (i + 1) ?h ! f ! ?k =
        (if i + 1 \<le> j then px data j c else ?h ! f ! ?k)"
      using True "1.prems" by (intro "1.IH") simp_all
    have here: "?h ! f ! ?k =
        (if ?k = 100352 + i then px data i 2 else if ?k = 50176 + i then px data i 1
         else if ?k = i then px data i 0 else h ! f ! ?k)"
      using "1.prems"(1,2) k by (simp add: channel_loop_at)
    have c: "c = 0 \<or> c = 1 \<or> c = 2" using "1.prems"(3) by auto
    have step: "pixel_loop data f i h = pixel_loop data f (i + 1) ?h"
      using True by (subst pixel_loop.simps) simp
    from c show ?thesis
    proof (elim disjE)
      assume "c = 0"
      then show ?thesis using True "1.prems"(4) IH here unfolding step
        by (cases "j = i") auto
    next
      assume "c = 1"
      then show ?thesis using True "1.prems"(4) IH here unfolding step
        by (cases "j = i") auto
    next
      assume "c = 2"
      then show ?thesis using True "1.prems"(4) IH here unfolding step
        by (cases "j = i") auto
    qed
  qed
qed

lemma STD_nonzero: "c < 3 \<Longrightarrow> STD ! c \<noteq> 0"
proof -
  assume "c < 3"
  then have "c = 0 \<or> c = 1 \<or> c = 2" by auto
  then show ?thesis by (auto simp: STD_def)
qed

lemma px_value:
  "i * 3 + c < length data \<Longrightarrow> c < 3 \<Longrightarrow>
   px data i c = Fin ((real (unat (data ! (i * 3 + c))) / 255 - MEAN ! c) / STD ! c)"
  by (simp add: px_def byte_at_def fsub_def STD_nonzero)

lemma tensor_eq:
  "tensor data h = pixel_loop data (length h) 0 (h @ [replicate 150528 (Fin 0)]) ! length h"
  by (simp add: tensor_def preprocess_def alloc_def)

text \<open>
  C8. For a raw pixel buffer of 224 x 224 x 3 bytes, the tensor has length 3 * 224 * 224,
  and its element for channel \<open>c\<close> at pixel position \<open>i\<close>, which stands at
  \<open>c * 224 * 224 + i\<close> (channel-major, the pixels of a channel in the order of the buffer),
  is \<open>(pixel / 255 - MEAN[c]) / STD[c]\<close> for the byte \<open>data[i * 3 + c]\<close>, with the
  constants of the claim.
\<close>

theorem tensor_layout:
  assumes "length data = 224 * 224 * 3"
  shows "length (tensor data h) = 3 * 224 * 224 \<and>
         (\<forall>c<3. \<forall>i<224 * 224. tensor data h ! (c * 224 * 224 + i) =
            Fin ((real (unat (data ! (i * 3 + c))) / 255 - MEAN ! c) / STD ! c)) \<and>
         MEAN = [0.48145466, 0.4578275, 0.40821073] \<and>
         STD = [0.26862954, 0.26130258, 0.27577711]"
proof -
  let ?h = "h @ [replicate 150528 (Fin 0)]"
  have len: "length (tensor data h) = 150528" by (simp add: tensor_eq nth_append)
  have "tensor data h ! (c * 224 * 224 + i) =
      Fin ((real (unat (data ! (i * 3 + c))) / 255 - MEAN ! c) / STD ! c)"
    if c: "c < 3" and i: "i < 224 * 224" for c i
  proof -
    have "tensor data h ! (c * 50176 + i) = px data i c"
      unfolding tensor_eq using c i by (subst pixel_loop_at) (simp_all add: nth_append)
    moreover have "i * 3 + c < length data" using assms c i by simp
    ultimately show ?thesis using c by (simp add: px_value mult.commute)
  qed
  then show ?thesis using len by (simp add: MEAN_def STD_def)
qed

theorem tensor_layout_witness:
  "length (tensor (replicate 150528 7) []) = 150528 \<and>
   tensor (replicate 150528 7) [] ! 50176 = Fin ((7 / 255 - 0.4578275) / 0.26130258)"
proof -
  have h: "length (replicate 150528 (7 :: 8 word)) = 224 * 224 * 3" by simp
  from tensor_layout [OF h, of "[]"]
  have a: "length (tensor (replicate 150528 7) []) = 3 * 224 * 224"
    and b: "\<forall>c<3. \<forall>i<224 * 224. tensor (replicate 150528 7) [] ! (c * 224 * 224 + i) =
            Fin ((real (unat (replicate 150528 (7 :: 8 word) ! (i * 3 + c))) / 255 - MEAN ! c) / STD ! c)"
    by blast+
  from b have "tensor (replicate 150528 7) [] ! (1 * 224 * 224 + 0) =
            Fin ((real (unat (replicate 150528 (7 :: 8 word) ! (0 * 3 + 1))) / 255 - MEAN ! 1) / STD ! 1)"
    by (intro b [rule_format]) simp_all
  then show ?thesis using a by (simp add: MEAN_def STD_def)
qed

section \<open>The store under search and embed\<close>

lemma frame_refl: "frame st st"
  by (simp add: frame_def)

lemma frame_trans: "frame st st1 \<Longrightarrow> frame st1 st2 \<Longrightarrow> frame st st2"
proof -
  assume a: "frame st st1" and b: "frame st1 st2"
  have "length (take (length (heap st)) (heap st1)) = length (heap st)"
    using a by (simp only: frame_def)
  then have l: "length (heap st) \<le> length (heap st1)" by simp
  have t1: "take (length (heap st)) (heap st1) = heap st"
    and t2: "take (length (heap st1)) (heap st2) = heap st1"
    using a b by (simp_all add: frame_def)
  have "take (length (heap st)) (heap st2) =
      take (length (heap st)) (take (length (heap st1)) (heap st2))"
    using l by (simp add: min_def)
  also have "\<dots> = take (length (heap st)) (heap st1)" by (simp only: t2)
  also have "\<dots> = heap st" by (rule t1)
  finally show ?thesis using a b by (simp add: frame_def)
qed

lemma grown_heap:
  assumes "length h' = Suc (length h)" and "\<And>b. b < length h \<Longrightarrow> h' ! b = h ! b"
  shows "take (length h) h' = h"
  using assms by (intro nth_equalityI) simp_all

lemma search_frame: "frame st (snd (search q k st))"
proof -
  let ?sc = "length (heap st)"
  let ?h = "score_loop q (length (meta st)) (embeddings st) ?sc 0
      (heap st @ [replicate (length (meta st)) (Fin 0)])"
  have "take (length (heap st)) ?h = heap st"
    by (rule grown_heap) (simp_all add: score_loop_other nth_append)
  then show ?thesis by (simp add: frame_def search_def scan_def alloc_def)
qed

lemma embed_frame: "frame st (snd (embed sharp run buf st))"
proof (cases "sharp buf")
  case (Inl e)
  then show ?thesis by (simp add: embed_def frame_refl)
next
  case (Inr data)
  let ?h = "pixel_loop data (length (heap st)) 0 (heap st @ [replicate 150528 (Fin 0)])"
  have "take (length (heap st)) ?h = heap st"
    by (rule grown_heap) (simp_all add: pixel_loop_other nth_append)
  then have "frame st (st\<lparr>heap := ?h\<rparr>)" by (simp add: frame_def)
  then show ?thesis using Inr
    by (simp add: embed_def preprocess_def alloc_def Let_def split: sum.splits)
qed

lemma handle_search_frame: "frame st (snd (handle_search sharp run buf st))"
proof (cases "embed sharp run buf st")
  case (Pair r st1)
  then have 1: "frame st st1" using embed_frame [of st sharp run buf] by simp
  show ?thesis
  proof (cases r)
    case (Inl e)
    then show ?thesis using Pair 1 by (simp add: handle_search_def)
  next
    case (Inr q)
    have "frame st1 (snd (search q 20 st1))" by (rule search_frame)
    with 1 have "frame st (snd (search q 20 st1))" by (rule frame_trans)
    then show ?thesis using Pair Inr
      by (cases "search q 20 st1") (simp add: handle_search_def)
  qed
qed

lemma do_call_frame: "frame st (do_call sharp run st c)"
  by (cases c) (simp_all add: search_frame embed_frame handle_search_frame)

lemma do_calls_frame: "frame st (do_calls sharp run st cs)"
  unfolding do_calls_def
proof (induction cs arbitrary: st)
  case Nil
  then show ?case by (simp add: frame_refl)
next
  case (Cons c cs)
  have "frame st (do_call sharp run st c)" by (rule do_call_frame)
  moreover have "frame (do_call sharp run st c) (foldl (do_call sharp run) (do_call sharp run st c) cs)"
    by (rule Cons.IH)
  ultimately show ?case using frame_trans by fastforce
qed

text \<open>
  C9. After the store is built by \<open>init\<close>, no sequence of \<open>search\<close> and \<open>embed\<close> calls
  changes it: the metadata, the reference \<open>embeddings\<close> and the content of the array it
  points to are the same after the calls as before, and so is every other array that
  existed before (what the calls write, they write to arrays they allocated themselves).
\<close>

theorem store_unchanged:
  assumes "init metadata bin = Inr st"
  shows "meta (do_calls sharp run st cs) = meta st \<and>
         embeddings (do_calls sharp run st cs) = embeddings st \<and>
         heap (do_calls sharp run st cs) ! embeddings (do_calls sharp run st cs) =
           heap st ! embeddings st \<and>
         take (length (heap st)) (heap (do_calls sharp run st cs)) = heap st"
proof -
  let ?st = "do_calls sharp run st cs"
  have f: "frame st ?st" by (rule do_calls_frame)
  have e: "embeddings st < length (heap st)" using init_loaded [OF assms] by simp
  have "heap ?st ! embeddings st = take (length (heap st)) (heap ?st) ! embeddings st"
    using e by simp
  then show ?thesis using f by (simp add: frame_def)
qed

theorem store_unchanged_witness:
  "\<exists>st. init [[''1'', ''desk'', ''Desk'', ''desk.jpg'']] (replicate 1024 0) = Inr st \<and>
     heap (do_calls black_image model_a st [EmbedCall [], SearchCall unit_query 20, Request []]) !
       embeddings (do_calls black_image model_a st [EmbedCall [], SearchCall unit_query 20, Request []]) =
     heap st ! embeddings st"
proof -
  obtain st :: "string proc"
    where st: "init [[''1'', ''desk'', ''Desk'', ''desk.jpg'']] (replicate 1024 0) = Inr st"
    using init_succeeds [of "[[''1'', ''desk'', ''Desk'', ''desk.jpg'']]" "replicate 1024 0"] by auto
  from store_unchanged [OF st, of black_image model_a "[EmbedCall [], SearchCall unit_query 20, Request []]"] st
  show ?thesis by blast
qed

section \<open>The score of a result\<close>

lemma dot_bound:
  fixes x y :: "nat \<Rightarrow> real"
  shows "\<bar>\<Sum>j\<in>A. x j * y j\<bar> \<le> ((\<Sum>j\<in>A. x j * x j) + (\<Sum>j\<in>A. y j * y j)) / 2"
proof -
  have "0 \<le> (\<Sum>j\<in>A. (x j - y j) * (x j - y j))" by (intro sum_nonneg) simp
  also have "(\<Sum>j\<in>A. (x j - y j) * (x j - y j)) =
      (\<Sum>j\<in>A. x j * x j) - 2 * (\<Sum>j\<in>A. x j * y j) + (\<Sum>j\<in>A. y j * y j)"
    by (simp add: algebra_simps sum.distrib sum_subtractf sum_distrib_left)
  finally have 1: "2 * (\<Sum>j\<in>A. x j * y j) \<le> (\<Sum>j\<in>A. x j * x j) + (\<Sum>j\<in>A. y j * y j)"
    by simp
  have "0 \<le> (\<Sum>j\<in>A. (x j + y j) * (x j + y j))" by (intro sum_nonneg) simp
  also have "(\<Sum>j\<in>A. (x j + y j) * (x j + y j)) =
      (\<Sum>j\<in>A. x j * x j) + 2 * (\<Sum>j\<in>A. x j * y j) + (\<Sum>j\<in>A. y j * y j)"
    by (simp add: algebra_simps sum.distrib sum_distrib_left)
  finally have 2: "- ((\<Sum>j\<in>A. x j * x j) + (\<Sum>j\<in>A. y j * y j)) \<le> 2 * (\<Sum>j\<in>A. x j * y j)"
    by simp
  from 1 2 show ?thesis by (simp add: abs_le_iff)
qed

lemma sum_squares_subset:
  fixes x :: "nat \<Rightarrow> real"
  shows "A \<subseteq> B \<Longrightarrow> finite B \<Longrightarrow> (\<Sum>j\<in>A. x j * x j) \<le> (\<Sum>j\<in>B. x j * x j)"
  by (intro sum_mono2) auto

lemma dot_bound_part:
  fixes x y :: "nat \<Rightarrow> real"
  assumes "A \<subseteq> {0..<512}"
  shows "\<bar>\<Sum>j\<in>A. x j * y j\<bar> \<le>
      ((\<Sum>j = 0..<512. x j * x j) + (\<Sum>j = 0..<512. y j * y j)) / 2"
  using dot_bound [of x y A] sum_squares_subset [OF assms, of x] sum_squares_subset [OF assms, of y]
  by simp

text \<open>
  C4, as amended. For a query and a stored vector of finite numbers whose sums of squares
  are at most \<open>1 + 1/4096\<close> (unit vectors, and vectors that are unit up to the rounding
  of their components), the score field of the product's result is the text, with one
  decimal, of \<open>fr * 100\<close>, where \<open>fr\<close> is the single-precision number in \<^verbatim>\<open>scores\<close>: the
  dot product as accumulated in doubles and stored in the \<^verbatim>\<open>Float32Array\<close>. \<open>fr\<close> is
  within \<open>2\<^sup>-\<^sup>2\<^sup>3\<close> of the exact dot product, so the number that the field denotes is
  within \<open>1/20 + 1/80000\<close> of the exact dot product times 100, and it lies between -100
  and 100. For unit vectors the exact dot product is the cosine similarity. (The field
  need not be the rounding of the cosine similarity times 100 itself: the example after
  the theorem prints 0.2 where that rounding is 0.3.)
\<close>

theorem score_rounded:
  assumes e: "embeddings st < length (heap st)"
    and i: "i < catalogSize st"
    and q: "\<forall>j<512. num_at query j = Fin (x j)"
    and s: "\<forall>j<512. arr_get (heap st) (embeddings st) (i * 512 + j) = Fin (y j)"
    and nx: "(\<Sum>j = 0..<512. x j * x j) \<le> 1 + 1 / 4096"
    and ny: "(\<Sum>j = 0..<512. y j * y j) \<le> 1 + 1 / 4096"
    and p: "p < length (ranked query k st)" "ranked query k st ! p = i"
  shows "\<exists>fr. scores query st ! i = Fin fr \<and>
           \<bar>fr - (\<Sum>j = 0..<512. x j * y j)\<bar> \<le> 1 / 2 ^ 23 \<and>
           score (fst (search query k st) ! p) = toFixed1 (Fin (fr * 100)) \<and>
           number_of (score (fst (search query k st) ! p)) = Fin (round1 (fr * 100)) \<and>
           \<bar>round1 (fr * 100) - (\<Sum>j = 0..<512. x j * y j) * 100\<bar> \<le> 1 / 20 + 1 / 80000 \<and>
           - 100 \<le> round1 (fr * 100) \<and> round1 (fr * 100) \<le> 100 \<and>
           ((\<Sum>j = 0..<512. x j * x j) = 1 \<and> (\<Sum>j = 0..<512. y j * y j) = 1 \<longrightarrow>
              (\<Sum>j = 0..<512. x j * y j) = cosine x y)"
proof -
  let ?d = "\<Sum>j = 0..<512. x j * y j"
  have bound: "\<bar>\<Sum>j\<in>A. x j * y j\<bar> \<le> 1 + 1 / 4096" if "A \<subseteq> {0..<512}" for A
  proof -
    define X Y where "X = (\<Sum>j = 0..<512. x j * x j)" and "Y = (\<Sum>j = 0..<512. y j * y j)"
    have "\<bar>\<Sum>j\<in>A. x j * y j\<bar> \<le> (X + Y) / 2"
      unfolding X_def Y_def using that by (rule dot_bound_part)
    moreover have "X \<le> 1 + 1 / 4096" "Y \<le> 1 + 1 / 4096" using nx ny by (simp_all add: X_def Y_def)
    ultimately show ?thesis by argo
  qed
  have prod: "\<forall>j<512. \<bar>x j * y j\<bar> \<le> 3 / 2"
  proof (intro allI impI)
    fix j :: nat assume "j < 512"
    then have "\<bar>\<Sum>k\<in>{j}. x k * y k\<bar> \<le> 1 + 1 / 4096" by (intro bound) simp
    then show "\<bar>x j * y j\<bar> \<le> 3 / 2" by simp
  qed
  have part: "\<forall>n\<le>512. \<bar>\<Sum>j = 0..<n. x j * y j\<bar> \<le> 3 / 2"
  proof (intro allI impI)
    fix n :: nat assume "n \<le> 512"
    then have "\<bar>\<Sum>j = 0..<n. x j * y j\<bar> \<le> 1 + 1 / 4096" by (intro bound) simp
    then show "\<bar>\<Sum>j = 0..<n. x j * y j\<bar> \<le> 3 / 2" by simp
  qed
  have d: "\<bar>?d\<bar> \<le> 1 + 1 / 4096" by (intro bound) simp
  define a :: real where "a = 1024 / 2 ^ 52"
  define b :: real where "b = 1 / 2 ^ 24"
  have ab: "0 \<le> a" "a \<le> b" "b + b = 1 / 2 ^ 23" "b \<le> 1 / 16000000"
    by (simp_all add: a_def b_def)
  have "\<exists>r. dot_loop query (heap st) (embeddings st) (i * 512) 0 (Fin 0) = Fin r \<and>
      \<bar>r - ?d\<bar> \<le> 1024 / 2 ^ 52"
    using q s prod part by (rule dot_loop_rounded) simp_all
  then obtain r where r: "dot_loop query (heap st) (embeddings st) (i * 512) 0 (Fin 0) = Fin r"
    and rd: "\<bar>r - ?d\<bar> \<le> a"
    unfolding a_def by blast
  have "\<bar>r\<bar> < 2" using rd d ab by linarith
  then obtain fr where fr: "f32 r = Fin fr" and "\<bar>fr - r\<bar> \<le> 1 / 2 ^ 24"
    using f32_error by blast
  then have frr: "\<bar>fr - r\<bar> \<le> b" by (simp add: b_def)
  have n: "i < length (meta st)" using i by (simp add: catalogSize_def)
  have sc: "scores query st ! i = Fin fr"
    using scores_nth [OF e n, of query] r fr by simp
  then have at: "num_at (scores query st) i = Fin fr" using n by (simp add: num_at_def)
  have err: "\<bar>fr - ?d\<bar> \<le> 1 / 2 ^ 23" using rd frr ab by linarith
  then have err8: "\<bar>fr - ?d\<bar> \<le> 1 / 8000000" using ab by linarith
  have "fst (search query k st) ! p = result_of st (scores query st) i"
    using p by (simp add: search_eq)
  then have t: "score (fst (search query k st) ! p) = toFixed1 (Fin (fr * 100))"
    by (simp add: result_of_def at del: toFixed1.simps)
  have small: "\<bar>fr * 100\<bar> < 100 + 1 / 20" using err8 d by linarith
  then have "\<not> 10 ^ 21 \<le> \<bar>fr * 100\<bar>" by simp
  then have num: "number_of (toFixed1 (Fin (fr * 100))) = Fin (round1 (fr * 100))"
    by (simp add: number_of_toFixed1 del: toFixed1.simps)
  have "\<bar>round1 (fr * 100)\<bar> \<le> 100" using small by (rule round1_le_100_near)
  then have range: "- 100 \<le> round1 (fr * 100)" "round1 (fr * 100) \<le> 100"
    by (simp_all add: abs_le_iff)
  have near: "\<bar>round1 (fr * 100) - ?d * 100\<bar> \<le> 1 / 20 + 1 / 80000"
    using round1_near [of "fr * 100"] err8 by linarith
  have cos: "(\<Sum>j = 0..<512. x j * x j) = 1 \<and> (\<Sum>j = 0..<512. y j * y j) = 1 \<longrightarrow>
      ?d = cosine x y"
    by (simp add: cosine_def)
  show ?thesis
    using sc err t num near range cos by (intro exI [of _ fr]) (simp del: toFixed1.simps)
qed

lemma cosine_e1: "cosine e1 e1 = 1"
  by (simp add: cosine_def unit_dot)

theorem score_rounded_witness:
  "scores unit_query twin_catalog ! 0 = Fin 1 \<and>
   score (fst (search unit_query 2 twin_catalog) ! 0) = Shown ''100.0'' \<and>
   number_of (score (fst (search unit_query 2 twin_catalog) ! 0)) = Fin 100 \<and>
   cosine e1 e1 = 1"
proof -
  have e: "embeddings twin_catalog < length (heap twin_catalog)" by (simp add: twin_catalog_def)
  have i: "0 < catalogSize twin_catalog" by (simp add: catalogSize_def twin_size)
  have q: "\<forall>j<512. num_at unit_query j = Fin (e1 j)" by (simp add: unit_query_at)
  have s: "\<forall>j<512. arr_get (heap twin_catalog) (embeddings twin_catalog) (0 * 512 + j) = Fin (e1 j)"
    by (auto simp: twin_catalog_def arr_get_def num_at_def nth_append nth_Cons' e1_def)
  have u: "(\<Sum>j = 0..<512. e1 j * e1 j) \<le> 1 + 1 / 4096" by (simp add: unit_dot)
  have p: "0 < length (ranked unit_query 2 twin_catalog)" "ranked unit_query 2 twin_catalog ! 0 = 0"
    by (simp_all add: twin_ranked)
  have r: "round1 100 = 100" by (simp add: round1_def)
  from score_rounded [OF e i q s u u p]
  obtain fr where fr: "scores unit_query twin_catalog ! 0 = Fin fr"
    and t: "score (fst (search unit_query 2 twin_catalog) ! 0) = toFixed1 (Fin (fr * 100))"
    and n: "number_of (score (fst (search unit_query 2 twin_catalog) ! 0)) =
      Fin (round1 (fr * 100))"
    by blast
  have "fr = 1" using fr by (simp add: twin_scores)
  then show ?thesis using fr t n by (simp add: cosine_e1 r fixed1_def digits_1000)
qed

lemma dyadic_zero: "5 \<le> k \<Longrightarrow> dyadic k = 0"
  by (simp add: dyadic_def)

lemma dyadic_unit: "(\<Sum>j = 0..<512. dyadic j * dyadic j) = 1"
proof -
  have "(\<Sum>j = 0..<512. dyadic j * dyadic j) =
      (\<Sum>j = 0..<5. dyadic j * dyadic j) + (\<Sum>j = 5..<512. dyadic j * dyadic j)"
    by (rule sum.atLeastLessThan_concat [symmetric]) simp_all
  also have "(\<Sum>j = 5..<512. dyadic j * dyadic j) = 0"
    by (intro sum.neutral) (simp add: dyadic_zero)
  also have "(\<Sum>j = 0..<5. dyadic j * dyadic j) = 1"
    by (simp add: eval_nat_numeral dyadic_def)
  finally show ?thesis by simp
qed

lemma dyadic_dot: "(\<Sum>j = 0..<512. dyadic j * e1 j) = 42949673 / 2 ^ 34"
proof -
  have "(\<Sum>j = 0..<512. dyadic j * e1 j) =
      (\<Sum>j \<in> {0..<512::nat}. if j = 0 then dyadic 0 else (0::real))"
    by (intro sum.cong) (auto simp: e1_def)
  then show ?thesis by (simp add: dyadic_0)
qed

lemma cosine_dyadic: "cosine dyadic e1 = 42949673 / 2 ^ 34"
  by (simp add: cosine_def dyadic_unit unit_dot dyadic_dot)

lemma dyadic_doubles: "map (rounded dbl) dyadic_query = dyadic_query"
proof -
  have "dbl (dyadic k) = Fin (dyadic k)" for k
  proof (cases "k < 5")
    case False
    then show ?thesis by (simp add: dyadic_def)
  next
    case True
    let ?m = "[42949673, 17179815495, 250391, 1930, 739] ! k"
    have "k = 0 \<or> k = 1 \<or> k = 2 \<or> k = 3 \<or> k = 4" using True by auto
    then have "\<bar>?m\<bar> < (2::int) ^ 53" by auto
    then have "dbl (of_int ?m / 2 ^ 34) = Fin (of_int ?m / 2 ^ 34)" by (rule dbl_dyadic)
    then show ?thesis using True by (simp add: dyadic_def)
  qed
  then show ?thesis by (simp add: dyadic_query_def)
qed

theorem score_rounded_counterexample:
  "dyadic_query = map (\<lambda>j. Fin (dyadic j)) [0..<512] \<and>
   map (rounded dbl) dyadic_query = dyadic_query \<and>
   take 512 (heap twin_catalog ! embeddings twin_catalog) = map (\<lambda>j. Fin (e1 j)) [0..<512] \<and>
   (\<Sum>j = 0..<512. dyadic j * dyadic j) = 1 \<and>
   (\<Sum>j = 0..<512. e1 j * e1 j) = 1 \<and>
   cosine dyadic e1 * 100 = 4294967300 / 2 ^ 34 \<and>
   round1 (cosine dyadic e1 * 100) = 3 / 10 \<and>
   scores dyadic_query twin_catalog ! 0 = Fin (10737418 / 2 ^ 32) \<and>
   ranked dyadic_query 2 twin_catalog ! 0 = 0 \<and>
   score (fst (search dyadic_query 2 twin_catalog) ! 0) = Shown ''0.2'' \<and>
   number_of (score (fst (search dyadic_query 2 twin_catalog) ! 0)) = Fin (2 / 10)"
proof -
  have row: "take 512 (heap twin_catalog ! embeddings twin_catalog) =
      map (\<lambda>j. Fin (e1 j)) [0..<512]"
    by (rule nth_equalityI) (simp_all add: twin_catalog_def nth_Cons' e1_def)
  have c: "cosine dyadic e1 * 100 = 4294967300 / 2 ^ 34" by (simp add: cosine_dyadic)
  have r: "round1 (cosine dyadic e1 * 100) = 3 / 10" by (simp add: cosine_dyadic round1_def)
  have "length (fst (search dyadic_query 2 twin_catalog)) = 2"
    by (simp add: search_eq dyadic_ranked)
  then have "score (fst (search dyadic_query 2 twin_catalog) ! 0) =
      map score (fst (search dyadic_query 2 twin_catalog)) ! 0"
    by simp
  then have t: "score (fst (search dyadic_query 2 twin_catalog) ! 0) = Shown ''0.2''"
    by (simp add: dyadic_search_scores)
  have n: "number_of (Shown ''0.2'') = Fin (2 / 10)"
    by (simp add: is_digit_def digit_value_def number_of_digits_def)
  show ?thesis
    using row c r t n
    by (simp add: dyadic_doubles dyadic_unit unit_dot dyadic_scores dyadic_ranked
        dyadic_query_def [symmetric])
qed

end
